theory Spec2Isabelle
  imports Main "HOL-Library.Word" "HOL-Library.Sublist"
begin

section \<open>JavaScript strings\<close>

text \<open>
  A JavaScript string is a sequence of UTF-16 code units. String literals of the source
  are ASCII and are embedded with \<open>js\<close>.
\<close>

type_synonym jschar = "16 word"
type_synonym jsstring = "jschar list"

definition js :: "string \<Rightarrow> jsstring" where
  "js s = map of_char s"

text \<open>Exceptions: \<open>new Error(msg)\<close> thrown by the scripts or by the page driver, and
  the engine's TypeError (property access on \<open>undefined\<close>, an invalid URL).\<close>

datatype js_error = Error jsstring | TypeError

text \<open>\<open>s.startsWith(p)\<close> and \<open>s.includes(sub)\<close>. Both stop at the first
  mismatch, respectively the first occurrence.\<close>

fun startsWith :: "jsstring \<Rightarrow> jsstring \<Rightarrow> bool" where
  "startsWith s [] = True"
| "startsWith [] (p # ps) = False"
| "startsWith (c # cs) (p # ps) = (if c = p then startsWith cs ps else False)"

fun str_includes :: "jsstring \<Rightarrow> jsstring \<Rightarrow> bool" where
  "str_includes [] sub = (sub = [])"
| "str_includes (c # cs) sub = (if startsWith (c # cs) sub then True else str_includes cs sub)"

text \<open>The class \<open>\s\<close> of regular expressions, which is also what \<open>trim\<close> strips:
  WhiteSpace and LineTerminator code units.\<close>

definition isWhiteSpace :: "jschar \<Rightarrow> bool" where
  "isWhiteSpace c \<longleftrightarrow>
     c = 0x09 \<or> c = 0x0A \<or> c = 0x0B \<or> c = 0x0C \<or> c = 0x0D \<or> c = 0x20 \<or> c = 0xA0 \<or>
     c = 0x1680 \<or> (0x2000 \<le> c \<and> c \<le> 0x200A) \<or> c = 0x2028 \<or> c = 0x2029 \<or>
     c = 0x202F \<or> c = 0x205F \<or> c = 0x3000 \<or> c = 0xFEFF"

definition trim :: "jsstring \<Rightarrow> jsstring" where
  "trim s = rev (dropWhile isWhiteSpace (rev (dropWhile isWhiteSpace s)))"

text \<open>\<open>s.substring(0, n)\<close> for a literal \<open>n\<close>.\<close>

definition substring0 :: "jsstring \<Rightarrow> nat \<Rightarrow> jsstring" where
  "substring0 s n = take n s"

section \<open>Content records\<close>

text \<open>
  One entry of the scraped-data document. Every metadata field is optional: the scrapers
  start from \<open>{}\<close> and set a field only when a selector yields it.
\<close>

record metadata =
  title :: "jsstring option"
  author :: "jsstring option"
  topics :: "jsstring list option"
  podcast :: "jsstring option"
  synopsis :: "jsstring option"

record mp3Data =
  videoUrl :: jsstring
  downloadUrl :: jsstring
  metadata :: metadata
  scrapedAt :: jsstring

section \<open>Pages and selectors\<close>

text \<open>
  What the scrapers read of a DOM element: two attributes, \<open>innerText\<close> (\<open>undefined\<close> on
  an element that is no HTML element) and whether \<open>offsetParent\<close> is non-null, which the
  CAPTCHA detector takes for visibility. The last field is not read by any script: it is
  the width and height of the box the browser lays the element out in, \<open>None\<close> when the
  element has no box at all (\<open>display: none\<close>). The DOM ties the two together in one
  direction only: an element without a box has no \<open>offsetParent\<close>, while an element may
  have an \<open>offsetParent\<close> and an empty box.
\<close>

record element =
  href :: "jsstring option"
  titleAttr :: "jsstring option"
  innerText :: "jsstring option"
  offsetParent :: bool
  box :: "(nat \<times> nat) option"

text \<open>An element has a visible bounding box when its box has a positive area.\<close>

definition hasVisibleBox :: "element \<Rightarrow> bool" where
  "hasVisibleBox el = (case box el of None \<Rightarrow> False | Some (w, h) \<Rightarrow> w > 0 \<and> h > 0)"

text \<open>
  A snapshot of the page shown by the browser. \<open>querySelectorAll\<close> gives the matches of
  a selector in document order, or \<open>None\<close> when the driver call throws (a selector it
  cannot parse, a detached frame); \<open>pageTitle\<close> and \<open>bodyInnerText\<close> are \<open>None\<close> when
  reading them throws.
\<close>

record page =
  querySelectorAll :: "string \<Rightarrow> element list option"
  pageTitle :: "jsstring option"
  pageUrl :: jsstring
  bodyInnerText :: "jsstring option"

text \<open>\<open>page.$(selector)\<close>: the first match or \<open>null\<close>, unless the call throws.\<close>

datatype 'a driver = Throws | Null | Found 'a

definition querySelector :: "page \<Rightarrow> string \<Rightarrow> element driver" where
  "querySelector p selector =
     (case querySelectorAll p selector of
        None \<Rightarrow> Throws
      | Some [] \<Rightarrow> Null
      | Some (el # els) \<Rightarrow> Found el)"

text \<open>The selectors of \<open>config.js\<close>.\<close>

definition viewAllButtons :: "string list" where
  "viewAllButtons = [''a.vs-video-row__header__more-link'']"

definition videoLinks :: "string list" where
  "videoLinks = [''a.watch-link'', ''a.vs-video-card__link-wrapper'', ''a#LinkWrapper'']"

definition downloadLinks :: "string list" where
  "downloadLinks =
     [''a[href*='/multimedia/filedownload_cdo/']:has-text('Download this MP3')'',
      ''a.inline_block[href*='/multimedia/filedownload_cdo/']'',
      ''a[href*='filedownload']'']"

definition titleSelectors :: "string list" where
  "titleSelectors = [''h1.article-header__title'', ''h2'', ''.js-article-title'', ''title'']"

definition authorSelectors :: "string list" where
  "authorSelectors = [''span.article-header__byline a'', ''.article-header__byline a'']"

definition topicsSelectors :: "string list" where
  "topicsSelectors = [''tr.topics a'']"

definition podcastSelectors :: "string list" where
  "podcastSelectors = [''.podcast_icon a'']"

definition synopsisSelectors :: "string list" where
  "synopsisSelectors = [''#TitleAndSynopsis .normal'', ''.video_info .normal'']"

section \<open>The recursive scraper\<close>

subsection \<open>checkForCaptcha\<close>

definition activeCaptchaSelectors :: "string list" where
  "activeCaptchaSelectors =
     [''iframe[src*=\"recaptcha\"]:not([style*=\"display: none\"])'',
      ''div[class*=\"g-recaptcha\"]:not([style*=\"display: none\"])'',
      ''div[id*=\"recaptcha\"]:not([style*=\"display: none\"])'',
      ''div.captcha-container:not([style*=\"display: none\"])'',
      ''form[action*=\"captcha\"]'']"

text \<open>The loop over the selectors: a selector whose query throws is skipped, and an
  element counts only when its \<open>offsetParent\<close> is non-null.\<close>

fun activeCaptchaElement :: "page \<Rightarrow> string list \<Rightarrow> bool" where
  "activeCaptchaElement p [] = False"
| "activeCaptchaElement p (selector # rest) =
     (case querySelector p selector of
        Throws \<Rightarrow> activeCaptchaElement p rest
      | Null \<Rightarrow> activeCaptchaElement p rest
      | Found captchaElement \<Rightarrow>
          if offsetParent captchaElement then True else activeCaptchaElement p rest)"

text \<open>The engine's \<open>toLowerCase\<close> on arbitrary text is a parameter.\<close>

definition captchaIndicators :: "(jsstring \<Rightarrow> jsstring) \<Rightarrow> jsstring \<Rightarrow> jsstring \<Rightarrow> bool list" where
  "captchaIndicators toLowerCase t url =
     [str_includes (toLowerCase t) (js ''security check''),
      str_includes (toLowerCase t) (js ''verify you are human''),
      str_includes (toLowerCase t) (js ''captcha'') \<and> str_includes (toLowerCase t) (js ''challenge''),
      str_includes (toLowerCase t) (js ''bot protection''),
      str_includes (toLowerCase url) (js ''/captcha''),
      str_includes (toLowerCase t) (js ''cloudflare'') \<and> str_includes (toLowerCase t) (js ''checking'')]"

definition challengePhrases :: "jsstring list" where
  "challengePhrases =
     [js ''verify you are not a robot'',
      js ''prove you are human'',
      js ''complete the security check'',
      js ''i am not a robot'',
      js ''please verify that you are a human'']"

definition challengePage :: "(jsstring \<Rightarrow> jsstring) \<Rightarrow> page \<Rightarrow> bool" where
  "challengePage toLowerCase p =
     (case pageTitle p of
        None \<Rightarrow> False
      | Some t \<Rightarrow> list_ex (\<lambda>indicator. indicator) (captchaIndicators toLowerCase t (pageUrl p)))"

definition challengeText :: "(jsstring \<Rightarrow> jsstring) \<Rightarrow> page \<Rightarrow> bool" where
  "challengeText toLowerCase p =
     (case bodyInnerText p of
        None \<Rightarrow> False
      | Some visibleText \<Rightarrow>
          if visibleText \<noteq> [] then
            (let visibleLower = toLowerCase visibleText
             in list_ex (\<lambda>phrase. str_includes visibleLower phrase) challengePhrases)
          else False)"

definition checkForCaptcha :: "(jsstring \<Rightarrow> jsstring) \<Rightarrow> page \<Rightarrow> bool" where
  "checkForCaptcha toLowerCase p =
     (if activeCaptchaElement p activeCaptchaSelectors then True
      else if challengePage toLowerCase p then True
      else if challengeText toLowerCase p then True
      else False)"

subsection \<open>Metadata extraction\<close>

text \<open>
  The loop used for the title and the synopsis: a selector whose query throws, that
  matches nothing, or whose first match has an empty or white-space text is passed over.
\<close>

fun firstNonEmptyText :: "page \<Rightarrow> string list \<Rightarrow> jsstring option" where
  "firstNonEmptyText p [] = None"
| "firstNonEmptyText p (selector # rest) =
     (case querySelector p selector of
        Throws \<Rightarrow> firstNonEmptyText p rest
      | Null \<Rightarrow> firstNonEmptyText p rest
      | Found el \<Rightarrow>
          (case innerText el of
             None \<Rightarrow> firstNonEmptyText p rest
           | Some text \<Rightarrow>
               if text \<noteq> [] \<and> trim text \<noteq> [] then Some (trim text)
               else firstNonEmptyText p rest))"

text \<open>
  The loop used for the author and the podcast in \<open>mp3_scraper.js\<close>: the first selector
  with a match ends the search, whatever its text; only \<open>undefined.trim()\<close>, which throws
  inside the \<open>try\<close>, lets the loop go on.
\<close>

fun firstMatchText :: "page \<Rightarrow> string list \<Rightarrow> jsstring option" where
  "firstMatchText p [] = None"
| "firstMatchText p (selector # rest) =
     (case querySelector p selector of
        Throws \<Rightarrow> firstMatchText p rest
      | Null \<Rightarrow> firstMatchText p rest
      | Found el \<Rightarrow>
          (case innerText el of
             None \<Rightarrow> firstMatchText p rest
           | Some text \<Rightarrow> Some (trim text)))"

text \<open>The topics of \<open>mp3_scraper.js\<close>: the trimmed texts of all matches of the first
  selector that has a match with a text.\<close>

fun firstTopics :: "page \<Rightarrow> string list \<Rightarrow> jsstring list option" where
  "firstTopics p [] = None"
| "firstTopics p (selector # rest) =
     (case querySelectorAll p selector of
        None \<Rightarrow> firstTopics p rest
      | Some topicLinks \<Rightarrow>
          (let topics =
                 concat (map (\<lambda>link. case innerText link of
                                         None \<Rightarrow> []
                                       | Some topicText \<Rightarrow>
                                           if topicText \<noteq> [] then [trim topicText] else [])
                           topicLinks)
           in if length topics > 0 then Some topics else firstTopics p rest))"

definition extractMetadata :: "page \<Rightarrow> metadata" where
  "extractMetadata p =
     \<lparr> title = firstNonEmptyText p titleSelectors,
       author = firstMatchText p authorSelectors,
       topics = firstTopics p topicsSelectors,
       podcast = firstMatchText p podcastSelectors,
       synopsis = firstNonEmptyText p synopsisSelectors \<rparr>"

subsection \<open>handleCaptcha\<close>

text \<open>
  A navigation either throws or shows a page that may change while the scraper waits:
  \<open>snapshots 0\<close> is the page after loading, \<open>snapshots k\<close> the page at the \<open>k\<close>-th poll of
  \<open>handleCaptcha\<close>. \<open>resolveUrl\<close> is \<open>new URL(href, baseUrl).href\<close>, which throws
  (\<open>None\<close>) on a malformed reference. \<open>headless\<close> is the browser setting and
  \<open>scrapedAtOf\<close> the time stamp put on the record of a video page.
\<close>

record site =
  goto :: "jsstring \<Rightarrow> (nat \<Rightarrow> page) option"
  resolveUrl :: "jsstring \<Rightarrow> jsstring option"
  headless :: bool
  scrapedAtOf :: "jsstring \<Rightarrow> jsstring"

text \<open>The polling loop \<open>while (waitTime < maxWaitTime)\<close> with steps of 3000 up to 180000,
  that is 60 polls: \<open>k\<close> is the number of the poll, the last argument the polls left.\<close>

fun pollCaptcha :: "(jsstring \<Rightarrow> jsstring) \<Rightarrow> (nat \<Rightarrow> page) \<Rightarrow> nat \<Rightarrow> nat \<Rightarrow> nat option" where
  "pollCaptcha toLowerCase snapshots k 0 = None"
| "pollCaptcha toLowerCase snapshots k (Suc left) =
     (if \<not> checkForCaptcha toLowerCase (snapshots k) then Some k
      else pollCaptcha toLowerCase snapshots (Suc k) left)"

text \<open>\<open>Solved k\<close>: the function returned true at poll \<open>k\<close>; \<open>Unsolved\<close>: it returned
  false; \<open>Failed\<close>: reading the page title for the log threw.\<close>

datatype captchaOutcome = Solved nat | Unsolved | Failed

definition handleCaptcha ::
  "(jsstring \<Rightarrow> jsstring) \<Rightarrow> bool \<Rightarrow> (nat \<Rightarrow> page) \<Rightarrow> captchaOutcome" where
  "handleCaptcha toLowerCase isHeadless snapshots =
     (case pageTitle (snapshots 0) of
        None \<Rightarrow> Failed
      | Some t \<Rightarrow>
          if \<not> isHeadless then
            (case pollCaptcha toLowerCase snapshots 1 60 of
               Some k \<Rightarrow> Solved k
             | None \<Rightarrow> Unsolved)
          else Unsolved)"

subsection \<open>The traversal\<close>

text \<open>
  The scraper object: the ledger \<open>visitedUrls\<close>, the records found, and (not a field of
  the source) the targets of \<open>page.goto\<close> in the order of the calls.
\<close>

record scraper =
  visitedUrls :: "jsstring set"
  scrapedData :: "mp3Data list"
  navigations :: "jsstring list"

definition newScraper :: scraper where
  "newScraper = \<lparr> visitedUrls = {}, scrapedData = [], navigations = [] \<rparr>"

text \<open>\<open>visitedUrls.add(url)\<close> followed by \<open>page.goto(url)\<close>.\<close>

definition visit :: "jsstring \<Rightarrow> scraper \<Rightarrow> scraper" where
  "visit url st =
     st \<lparr> visitedUrls := insert url (visitedUrls st), navigations := navigations st @ [url] \<rparr>"

text \<open>All matches of a list of selectors, one selector after the other; \<open>None\<close> when a
  query throws.\<close>

fun collectElements :: "page \<Rightarrow> string list \<Rightarrow> element list option" where
  "collectElements p [] = Some []"
| "collectElements p (selector # rest) =
     (case querySelectorAll p selector of
        None \<Rightarrow> None
      | Some els \<Rightarrow>
          (case collectElements p rest of
             None \<Rightarrow> None
           | Some others \<Rightarrow> Some (els @ others)))"

text \<open>The absolute URLs of the elements that have a non-empty \<open>href\<close>; \<open>None\<close> when
  resolving one of them throws.\<close>

fun resolveHrefs :: "site \<Rightarrow> element list \<Rightarrow> jsstring list option" where
  "resolveHrefs w [] = Some []"
| "resolveHrefs w (el # els) =
     (case href el of
        None \<Rightarrow> resolveHrefs w els
      | Some h \<Rightarrow>
          if h = [] then resolveHrefs w els
          else
            (case resolveUrl w h of
               None \<Rightarrow> None
             | Some fullUrl \<Rightarrow>
                 (case resolveHrefs w els of
                    None \<Rightarrow> None
                  | Some others \<Rightarrow> Some (fullUrl # others))))"

text \<open>The video links of a page, as \<open>extractVideoLinks\<close> and \<open>checkNestedVideoLinks\<close>
  gather them (the link titles are only logged).\<close>

definition videoLinkUrls :: "site \<Rightarrow> page \<Rightarrow> jsstring list option" where
  "videoLinkUrls w p =
     (case collectElements p videoLinks of
        None \<Rightarrow> None
      | Some links \<Rightarrow> resolveHrefs w links)"

text \<open>The download link: the first selector, in order, whose first match has a non-empty
  \<open>href\<close> that resolves; a throw inside the loop body moves on to the next selector.\<close>

fun findDownloadLink :: "site \<Rightarrow> page \<Rightarrow> string list \<Rightarrow> jsstring option" where
  "findDownloadLink w p [] = None"
| "findDownloadLink w p (selector # rest) =
     (case querySelector p selector of
        Throws \<Rightarrow> findDownloadLink w p rest
      | Null \<Rightarrow> findDownloadLink w p rest
      | Found downloadElement \<Rightarrow>
          (case href downloadElement of
             None \<Rightarrow> findDownloadLink w p rest
           | Some h \<Rightarrow>
               if h = [] then findDownloadLink w p rest
               else
                 (case resolveUrl w h of
                    None \<Rightarrow> findDownloadLink w p rest
                  | Some downloadLink \<Rightarrow> Some downloadLink)))"

text \<open>
  \<open>extractMp3FromVideoPage\<close> and \<open>checkNestedVideoLinks\<close> call each other with no bound
  but the ledger, so on a site without end they need not return. The first argument is
  fuel: the depth of nested calls allowed, \<open>None\<close> when it runs out. \<open>visitVideos\<close> is the
  \<open>for\<close> loop over the links. Every exception is caught inside the function that
  raises it, so none of them throws. The \<open>depth\<close> argument of the source, used for log
  indentation only, is left out.
\<close>

fun extractMp3FromVideoPage :: "nat \<Rightarrow> site \<Rightarrow> jsstring \<Rightarrow> scraper \<Rightarrow> scraper option"
  and checkNestedVideoLinks :: "nat \<Rightarrow> site \<Rightarrow> page \<Rightarrow> jsstring \<Rightarrow> scraper \<Rightarrow> scraper option"
  and visitVideos :: "nat \<Rightarrow> site \<Rightarrow> jsstring list \<Rightarrow> scraper \<Rightarrow> scraper option" where
  "extractMp3FromVideoPage 0 w url st = None"
| "extractMp3FromVideoPage (Suc fuel) w url st =
     (if url \<in> visitedUrls st then Some st
      else
        (let st1 = visit url st in
         case goto w url of
           None \<Rightarrow> Some st1
         | Some snapshots \<Rightarrow>
             (case findDownloadLink w (snapshots 0) downloadLinks of
                Some downloadLink \<Rightarrow>
                  Some (st1 \<lparr> scrapedData := scrapedData st1 @
                          [\<lparr> videoUrl = url, downloadUrl = downloadLink,
                             metadata = extractMetadata (snapshots 0),
                             scrapedAt = scrapedAtOf w url \<rparr>] \<rparr>)
              | None \<Rightarrow> checkNestedVideoLinks fuel w (snapshots 0) url st1)))"
| "checkNestedVideoLinks fuel w p currentVideoUrl st =
     (case videoLinkUrls w p of
        None \<Rightarrow> Some st
      | Some urls \<Rightarrow>
          (let nestedVideoLinks =
                 filter (\<lambda>fullUrl. fullUrl \<noteq> currentVideoUrl \<and> fullUrl \<notin> visitedUrls st) urls
           in visitVideos fuel w nestedVideoLinks st))"
| "visitVideos fuel w [] st = Some st"
| "visitVideos fuel w (url # urls) st =
     (case extractMp3FromVideoPage fuel w url st of
        None \<Rightarrow> None
      | Some st1 \<Rightarrow> visitVideos fuel w urls st1)"

definition extractVideoLinks :: "nat \<Rightarrow> site \<Rightarrow> page \<Rightarrow> scraper \<Rightarrow> scraper option" where
  "extractVideoLinks fuel w p st =
     (case videoLinkUrls w p of
        None \<Rightarrow> Some st
      | Some urls \<Rightarrow> visitVideos fuel w urls st)"

text \<open>
  \<open>scrapeRecursively\<close>, with the same fuel; \<open>scrapeAll\<close> is its loop over the "view all"
  URLs. \<open>maxDepth\<close> is \<open>ADVANCED.maxDepth\<close> (10 in \<open>config.js\<close>).
\<close>

fun scrapeRecursively ::
    "nat \<Rightarrow> nat \<Rightarrow> (jsstring \<Rightarrow> jsstring) \<Rightarrow> site \<Rightarrow> jsstring \<Rightarrow> nat \<Rightarrow> scraper \<Rightarrow> scraper option"
  and scrapeAll ::
    "nat \<Rightarrow> nat \<Rightarrow> (jsstring \<Rightarrow> jsstring) \<Rightarrow> site \<Rightarrow> jsstring list \<Rightarrow> nat \<Rightarrow> scraper \<Rightarrow> scraper option"
  where
  "scrapeRecursively 0 maxDepth toLowerCase w url depth st = None"
| "scrapeRecursively (Suc fuel) maxDepth toLowerCase w url depth st =
     (if url \<in> visitedUrls st \<or> depth > maxDepth then Some st
      else
        (let st1 = visit url st in
         case goto w url of
           None \<Rightarrow> Some st1
         | Some snapshots \<Rightarrow>
             (case (if checkForCaptcha toLowerCase (snapshots 0)
                    then handleCaptcha toLowerCase (headless w) snapshots
                    else Solved 0) of
                Failed \<Rightarrow> Some st1
              | Unsolved \<Rightarrow> Some st1
              | Solved k \<Rightarrow>
                  (case collectElements (snapshots k) viewAllButtons of
                     None \<Rightarrow> Some st1
                   | Some buttons \<Rightarrow>
                       if length buttons > 0 then
                         (case resolveHrefs w buttons of
                            None \<Rightarrow> Some st1
                          | Some viewAllUrls \<Rightarrow>
                              scrapeAll fuel maxDepth toLowerCase w viewAllUrls (depth + 1) st1)
                       else extractVideoLinks fuel w (snapshots k) st1))))"
| "scrapeAll fuel maxDepth toLowerCase w [] depth st = Some st"
| "scrapeAll fuel maxDepth toLowerCase w (url # urls) depth st =
     (case scrapeRecursively fuel maxDepth toLowerCase w url depth st of
        None \<Rightarrow> None
      | Some st1 \<Rightarrow> scrapeAll fuel maxDepth toLowerCase w urls depth st1)"

text \<open>
  \<open>run\<close> starts the traversal at \<open>this.startUrl\<close> as it was given: unlike every link,
  the start URL is not passed through \<open>new URL\<close>. Launching and closing the browser are
  left out.
\<close>

definition run ::
  "nat \<Rightarrow> nat \<Rightarrow> (jsstring \<Rightarrow> jsstring) \<Rightarrow> site \<Rightarrow> jsstring \<Rightarrow> scraper option" where
  "run fuel maxDepth toLowerCase w startUrl =
     scrapeRecursively fuel maxDepth toLowerCase w startUrl 0 newScraper"

text \<open>
  A ResourceRef is a URL in normalized form, one that \<open>new URL\<close> returns as it
  is. Normalizing twice is normalizing once (the URL standard's serializer and parser
  agree), which \<open>normalizing\<close> states of the parameter \<open>resolveUrl\<close>.
\<close>

definition normalUrl :: "site \<Rightarrow> jsstring \<Rightarrow> bool" where
  "normalUrl w url \<longleftrightarrow> resolveUrl w url = Some url"

definition normalizing :: "site \<Rightarrow> bool" where
  "normalizing w \<longleftrightarrow> (\<forall>h url. resolveUrl w h = Some url \<longrightarrow> resolveUrl w url = Some url)"

text \<open>
  The ledger invariant: no URL was navigated to twice, and every URL navigated to is in
  the ledger. A site is closed under a set of URLs when every link that the traversal can
  read on a page of the set leads into the set.
\<close>

definition ledgerInv :: "scraper \<Rightarrow> bool" where
  "ledgerInv st \<longleftrightarrow> distinct (navigations st) \<and> set (navigations st) \<subseteq> visitedUrls st"

definition grows :: "scraper \<Rightarrow> scraper \<Rightarrow> bool" where
  "grows st st' \<longleftrightarrow> visitedUrls st \<subseteq> visitedUrls st' \<and> (ledgerInv st \<longrightarrow> ledgerInv st')"

definition pageLinks :: "site \<Rightarrow> page \<Rightarrow> jsstring set" where
  "pageLinks w p =
     {u. \<exists>selector \<in> set (viewAllButtons @ videoLinks). \<exists>els el h.
           querySelectorAll p selector = Some els \<and> el \<in> set els \<and>
           href el = Some h \<and> resolveUrl w h = Some u}"

definition closedUnder :: "site \<Rightarrow> jsstring set \<Rightarrow> bool" where
  "closedUnder w U \<longleftrightarrow>
     (\<forall>url \<in> U. \<forall>snapshots k. goto w url = Some snapshots \<longrightarrow> pageLinks w (snapshots k) \<subseteq> U)"

section \<open>The paginated scraper\<close>

subsection \<open>extractMetadata\<close>

text \<open>Here every field asks for a text that is not empty after trimming, topics too.\<close>

fun firstTopicsNonEmpty :: "page \<Rightarrow> string list \<Rightarrow> jsstring list option" where
  "firstTopicsNonEmpty p [] = None"
| "firstTopicsNonEmpty p (selector # rest) =
     (case querySelectorAll p selector of
        None \<Rightarrow> firstTopicsNonEmpty p rest
      | Some topicLinks \<Rightarrow>
          (let topics =
                 concat (map (\<lambda>link. case innerText link of
                                         None \<Rightarrow> []
                                       | Some topicText \<Rightarrow>
                                           if topicText \<noteq> [] \<and> trim topicText \<noteq> []
                                           then [trim topicText] else [])
                           topicLinks)
           in if length topics > 0 then Some topics else firstTopicsNonEmpty p rest))"

definition paginated_extractMetadata :: "page \<Rightarrow> metadata" where
  "paginated_extractMetadata p =
     \<lparr> title = firstNonEmptyText p titleSelectors,
       author = firstNonEmptyText p authorSelectors,
       topics = firstTopicsNonEmpty p topicsSelectors,
       podcast = firstNonEmptyText p podcastSelectors,
       synopsis = firstNonEmptyText p synopsisSelectors \<rparr>"

subsection \<open>scrapeCurrentPage\<close>

definition BASE_URL :: jsstring where
  "BASE_URL = js ''https://www.chabad.org''"

text \<open>
  The in-page script: over the elements of one selector, it keeps the \<open>href\<close>s that
  contain \<open>/aid/\<close>, makes them absolute, and adds those not yet in \<open>processedUrls\<close>, a set
  that lives for this one page only. The time stamp \<open>foundAt\<close> is left out.
\<close>

fun addLinks ::
  "element list \<Rightarrow> jsstring list \<times> jsstring set \<Rightarrow> jsstring list \<times> jsstring set" where
  "addLinks [] (links, processedUrls) = (links, processedUrls)"
| "addLinks (el # els) (links, processedUrls) =
     (case href el of
        None \<Rightarrow> addLinks els (links, processedUrls)
      | Some h \<Rightarrow>
          if h \<noteq> [] \<and> str_includes h (js ''/aid/'') then
            (let fullUrl = (if startsWith h (js ''http'') then h else BASE_URL @ h)
             in if fullUrl \<notin> processedUrls
                then addLinks els (links @ [fullUrl], insert fullUrl processedUrls)
                else addLinks els (links, processedUrls))
          else addLinks els (links, processedUrls))"

fun scanSelectors ::
  "page \<Rightarrow> string list \<Rightarrow> jsstring list \<times> jsstring set \<Rightarrow> (jsstring list \<times> jsstring set) option" where
  "scanSelectors p [] acc = Some acc"
| "scanSelectors p (selector # rest) acc =
     (case querySelectorAll p selector of
        None \<Rightarrow> None
      | Some elements \<Rightarrow> scanSelectors p rest (addLinks elements acc))"

text \<open>
  The paginated scraper object. Phase 2 replaces \<open>allVideoData\<close> by the extracted
  records; the model keeps them in \<open>extractedData\<close>. \<open>pageVisits\<close> (not a field of the
  source) lists the targets of \<open>page.goto\<close> in phase 2, in the order of the calls.
\<close>

record paginated =
  allVideoData :: "jsstring list"
  processedPages :: nat
  totalFound :: nat
  extractedData :: "mp3Data list"
  pageVisits :: "jsstring list"

definition newPaginated :: paginated where
  "newPaginated =
     \<lparr> allVideoData = [], processedPages = 0, totalFound = 0, extractedData = [],
       pageVisits = [] \<rparr>"

text \<open>When the script throws, the function returns no links and counts no page.\<close>

definition scrapeCurrentPage :: "page \<Rightarrow> paginated \<Rightarrow> jsstring list \<times> paginated" where
  "scrapeCurrentPage p st =
     (case scanSelectors p videoLinks ([], {}) of
        None \<Rightarrow> ([], st)
      | Some (links, processedUrls) \<Rightarrow>
          (links,
           st \<lparr> allVideoData := allVideoData st @ links,
                totalFound := totalFound st + length links,
                processedPages := processedPages st + 1 \<rparr>))"

text \<open>The video links that \<open>scrapeCurrentPage\<close> finds on a page.\<close>

definition pageVideoLinks :: "page \<Rightarrow> jsstring list" where
  "pageVideoLinks p = fst (scrapeCurrentPage p newPaginated)"

subsection \<open>collectAllVideoUrls\<close>

text \<open>
  A listing page as the loop meets it: its DOM, what \<open>hasEnabledNextButton\<close> returns
  on it, and what \<open>clickNextButton\<close> returns (false when nothing could be clicked or the
  click threw). The world of a run: whether the first navigation throws, the listing
  page shown after \<open>k\<close> clicks, and the page that the \<open>i\<close>-th visit of phase 2 shows for a
  URL (\<open>None\<close> when the navigation throws), with the time stamp of that visit.
\<close>

record listing =
  dom :: page
  hasEnabledNextButton :: bool
  clickNextButton :: bool

record pagination =
  navigateToStart :: "js_error option"
  listings :: "nat \<Rightarrow> listing"
  videoPageAt :: "nat \<Rightarrow> jsstring \<Rightarrow> page option"
  visitedAt :: "nat \<Rightarrow> jsstring"

text \<open>
  The loop \<open>while (hasMorePages && this.processedPages < maxPages)\<close> with
  \<open>maxPages = 50\<close>, at the \<open>k\<close>-th listing page. A page whose script throws is not counted,
  so the loop need not end: not returning is \<open>None\<close>.
\<close>

partial_function (option) collectLoop :: "pagination \<Rightarrow> nat \<Rightarrow> paginated \<Rightarrow> paginated option" where
  "collectLoop w k st =
     (if processedPages st < 50 then
        (if hasEnabledNextButton (listings w k) then
           (if clickNextButton (listings w k)
            then collectLoop w (k + 1) (snd (scrapeCurrentPage (dom (listings w k)) st))
            else Some (snd (scrapeCurrentPage (dom (listings w k)) st)))
         else Some (snd (scrapeCurrentPage (dom (listings w k)) st)))
      else Some st)"

definition collectAllVideoUrls :: "pagination \<Rightarrow> paginated \<Rightarrow> (js_error + paginated) option" where
  "collectAllVideoUrls w st =
     (case navigateToStart w of
        Some e \<Rightarrow> Some (Inl e)
      | None \<Rightarrow> map_option Inr (collectLoop w 0 st))"

subsection \<open>extractMetadataFromAllVideos\<close>

text \<open>Here a relative \<open>href\<close> is made absolute by concatenation, which cannot throw.\<close>

fun paginated_findDownloadLink :: "page \<Rightarrow> string list \<Rightarrow> jsstring option" where
  "paginated_findDownloadLink p [] = None"
| "paginated_findDownloadLink p (selector # rest) =
     (case querySelector p selector of
        Throws \<Rightarrow> paginated_findDownloadLink p rest
      | Null \<Rightarrow> paginated_findDownloadLink p rest
      | Found downloadElement \<Rightarrow>
          (case href downloadElement of
             None \<Rightarrow> paginated_findDownloadLink p rest
           | Some h \<Rightarrow>
               if h = [] then paginated_findDownloadLink p rest
               else Some (if startsWith h (js ''http'') then h else BASE_URL @ h)))"

text \<open>The \<open>i\<close>-th call of the loop: \<open>None\<close> is the \<open>null\<close> returned when the navigation
  throws or no download link is found.\<close>

definition paginated_extractMp3FromVideoPage ::
  "pagination \<Rightarrow> nat \<Rightarrow> jsstring \<Rightarrow> mp3Data option" where
  "paginated_extractMp3FromVideoPage w i url =
     (case videoPageAt w i url of
        None \<Rightarrow> None
      | Some p \<Rightarrow>
          (case paginated_findDownloadLink p downloadLinks of
             None \<Rightarrow> None
           | Some downloadLink \<Rightarrow>
               Some \<lparr> videoUrl = url, downloadUrl = downloadLink,
                      metadata = paginated_extractMetadata p, scrapedAt = visitedAt w i \<rparr>))"

text \<open>The loop over \<open>allVideoData\<close> from position \<open>i\<close> on: every entry is navigated to.\<close>

fun extractFrom :: "pagination \<Rightarrow> jsstring list \<Rightarrow> nat \<Rightarrow> paginated \<Rightarrow> paginated" where
  "extractFrom w [] i st = st"
| "extractFrom w (url # urls) i st =
     extractFrom w urls (i + 1)
       (case paginated_extractMp3FromVideoPage w i url of
          Some mp3 \<Rightarrow> st \<lparr> extractedData := extractedData st @ [mp3],
                           pageVisits := pageVisits st @ [url] \<rparr>
        | None \<Rightarrow> st \<lparr> pageVisits := pageVisits st @ [url] \<rparr>)"

definition extractMetadataFromAllVideos :: "pagination \<Rightarrow> paginated \<Rightarrow> paginated" where
  "extractMetadataFromAllVideos w st = extractFrom w (allVideoData st) 0 st"

definition processAllPages :: "pagination \<Rightarrow> paginated \<Rightarrow> (js_error + paginated) option" where
  "processAllPages w st =
     (case collectAllVideoUrls w st of
        None \<Rightarrow> None
      | Some (Inl e) \<Rightarrow> Some (Inl e)
      | Some (Inr st1) \<Rightarrow> Some (Inr (extractMetadataFromAllVideos w st1)))"

section \<open>The authenticated uploader\<close>

subsection \<open>checkLoginStatus\<close>

text \<open>
  What the function could observe of the browser: whether navigating to the protected
  audio-classes page throws, and the content of the page shown afterwards. The
  lower-casing of arbitrary page content is the engine's \<open>toLowerCase\<close>, a parameter.
  The result comes with the navigations the call performed.
\<close>

record login_probe =
  probeGoto :: "js_error option"
  probeContent :: "js_error + jsstring"

definition protectedResource :: jsstring where
  "protectedResource =
     js ''https://www.chabad.org/multimedia/default_cdo/aid/3411425/jewish/Audio-Classes.htm''"

definition checkLoginStatus ::
  "(jsstring \<Rightarrow> jsstring) \<Rightarrow> login_probe \<Rightarrow> bool \<times> jsstring list" where
  "checkLoginStatus toLowerCase p =
     (let basicCheck = True in
      if basicCheck then (True, [])
      else
        (case (case probeGoto p of
                 Some e \<Rightarrow> None
               | None \<Rightarrow>
                   (case probeContent p of
                      Inl e \<Rightarrow> None
                    | Inr pageContent \<Rightarrow>
                        if str_includes (toLowerCase pageContent) (js ''login'') \<or>
                           str_includes (toLowerCase pageContent) (js ''sign in'') \<or>
                           str_includes (toLowerCase pageContent) (js ''please log in'')
                        then Some False
                        else if str_includes pageContent (js ''filedownload'') \<or>
                                str_includes pageContent (js ''download'') \<or>
                                str_includes pageContent (js ''mp3'')
                        then Some True
                        else None))
         of Some b \<Rightarrow> (b, [protectedResource])
          | None \<Rightarrow> (True, [protectedResource])))"

subsection \<open>sanitizeMetadataValue\<close>

text \<open>
  The argument is a metadata field: a string, or \<open>undefined\<close> (\<open>None\<close>) when the field
  is absent. \<open>!value\<close> holds for \<open>undefined\<close> and for the empty string.
\<close>

definition sanitizeMetadataValue :: "jsstring option \<Rightarrow> jsstring" where
  "sanitizeMetadataValue v =
     (case v of
        None \<Rightarrow> []
      | Some s \<Rightarrow>
          if s = [] then []
          else substring0
                 (trim
                    (filter (\<lambda>c. \<not> (c \<le> 0x1F \<or> c = 0x7F))
                       (filter (\<lambda>c. 0x20 \<le> c \<and> c \<le> 0x7E) s)))
                 1024)"

text \<open>The printable ASCII code units.\<close>

definition isPrintableAscii :: "jschar \<Rightarrow> bool" where
  "isPrintableAscii c \<longleftrightarrow> 0x20 \<le> c \<and> c \<le> 0x7E"

subsection \<open>generateS3Key\<close>

definition isDigit :: "jschar \<Rightarrow> bool" where
  "isDigit c \<longleftrightarrow> 0x30 \<le> c \<and> c \<le> 0x39"

definition isAsciiLetter :: "jschar \<Rightarrow> bool" where
  "isAsciiLetter c \<longleftrightarrow> (0x41 \<le> c \<and> c \<le> 0x5A) \<or> (0x61 \<le> c \<and> c \<le> 0x7A)"

text \<open>\<open>url.match(/\/aid\/(\d+)/)\<close>: the capture group of the leftmost match, the digits
  taken greedily; \<open>None\<close> when nothing matches.\<close>

fun matchAid :: "jsstring \<Rightarrow> jsstring option" where
  "matchAid [] = None"
| "matchAid (c # cs) =
     (if startsWith (c # cs) (js ''/aid/'')
      then (case takeWhile isDigit (drop 5 (c # cs)) of
              [] \<Rightarrow> matchAid cs
            | d # ds \<Rightarrow> Some (d # ds))
      else matchAid cs)"

text \<open>\<open>.replace(/[^a-zA-Z0-9\s\-]/g, '')\<close>\<close>

definition stripTitleChars :: "jsstring \<Rightarrow> jsstring" where
  "stripTitleChars s =
     filter (\<lambda>c. isAsciiLetter c \<or> isDigit c \<or> isWhiteSpace c \<or> c = 0x2D) s"

text \<open>\<open>.replace(/\s+/g, '-')\<close>: every maximal run of white space becomes one hyphen.\<close>

function replaceWhiteSpaceRuns :: "jsstring \<Rightarrow> jsstring" where
  "replaceWhiteSpaceRuns [] = []"
| "replaceWhiteSpaceRuns (c # cs) =
     (if isWhiteSpace c then 0x2D # replaceWhiteSpaceRuns (dropWhile isWhiteSpace cs)
      else c # replaceWhiteSpaceRuns cs)"
  by pat_completeness auto
termination
  by (relation "measure length") (auto simp: less_Suc_eq_le length_dropWhile_le)

text \<open>
  \<open>toLowerCase\<close> on a string of ASCII code units maps \<open>A\<close> to \<open>Z\<close> onto \<open>a\<close> to \<open>z\<close>
  and leaves the rest. \<open>generateS3Key\<close> applies it after the two replacements, when
  only ASCII letters, digits and hyphens are left (\<open>cleaned_title_ascii\<close> below).
\<close>

definition toLowerCaseAscii :: "jsstring \<Rightarrow> jsstring" where
  "toLowerCaseAscii s = map (\<lambda>c. if 0x41 \<le> c \<and> c \<le> 0x5A then c + 0x20 else c) s"

text \<open>\<open>String(index)\<close> for the loop counter, a positive integer below \<open>10^21\<close>: its
  decimal digits. \<open>padStart(n, '0')\<close> fills on the left up to length \<open>n\<close>.\<close>

fun decimalString :: "nat \<Rightarrow> jsstring" where
  "decimalString n =
     (if n < 10 then [0x30 + of_nat n]
      else decimalString (n div 10) @ [0x30 + of_nat (n mod 10)])"

declare decimalString.simps [simp del]

definition padStart :: "jsstring \<Rightarrow> nat \<Rightarrow> jschar \<Rightarrow> jsstring" where
  "padStart s n fill = replicate (n - length s) fill @ s"

definition contentTypeOf :: "jsstring \<Rightarrow> jsstring" where
  "contentTypeOf url =
     (let isTanya = str_includes url (js ''/library/tanya/'');
          isRabbiGordon = str_includes url (js ''/multimedia/video_cdo/'')
      in if isTanya then js ''tanya''
         else if isRabbiGordon then js ''rabbi-gordon''
         else js ''other'')"

definition aidOf :: "jsstring \<Rightarrow> jsstring" where
  "aidOf url = (case matchAid url of Some digits \<Rightarrow> digits | None \<Rightarrow> js ''unknown'')"

definition cleanTitle :: "jsstring \<Rightarrow> jsstring" where
  "cleanTitle t = substring0 (toLowerCaseAscii (replaceWhiteSpaceRuns (stripTitleChars t))) 80"

definition cleanFilename :: "jsstring \<Rightarrow> jsstring" where
  "cleanFilename t = substring0 (toLowerCaseAscii (replaceWhiteSpaceRuns (stripTitleChars t))) 100"

definition paddedIndex :: "nat \<Rightarrow> jsstring" where
  "paddedIndex index = padStart (decimalString index) 4 0x30"

text \<open>Calling \<open>.replace\<close> on an absent title throws a TypeError.\<close>

definition generateS3Key :: "mp3Data \<Rightarrow> nat \<Rightarrow> js_error + jsstring" where
  "generateS3Key mp3 index =
     (let aid = aidOf (videoUrl mp3);
          contentType = contentTypeOf (videoUrl mp3)
      in case title (metadata mp3) of
           None \<Rightarrow> Inl TypeError
         | Some t \<Rightarrow>
             Inr (contentType @ js ''/'' @ cleanTitle t @ js ''/'' @ aid @ js ''/'' @
                  paddedIndex index @ js ''-'' @ cleanFilename t @ js ''.mp3''))"

subsection \<open>downloadAuthenticatedMp3\<close>

text \<open>The \<open>config\<close> object of the uploader script, as far as the functions below read it.\<close>

record config =
  retryAttempts :: nat
  retryDelay :: nat

definition defaultConfig :: config where
  "defaultConfig = \<lparr> retryAttempts = 3, retryDelay = 3000 \<rparr>"

text \<open>
  What one pass through the \<open>try\<close> block meets: each navigation may throw, as may reading
  the page content and the in-page script that looks for a download link and clicks it
  (it returns whether it found one); and what the staging directory shows at each poll,
  namely the newest file named \<open>*.mp3\<close> or containing \<open>download\<close>, and its size, unless a
  file-system call of that iteration throws.
\<close>

datatype poll = PollThrows js_error | NoFile | StagedFile nat

record attempt =
  gotoDownloadUrl :: "js_error option"
  readContent :: "js_error option"
  gotoVideoUrl :: "js_error option"
  triggerDownload :: "js_error + bool"
  staging :: "nat \<Rightarrow> poll"

text \<open>The polling loop \<open>for (let i = 0; i < maxWait; i++)\<close>: \<open>i\<close> is the current
  iteration and the third argument counts the iterations left. It yields the size of the
  file that was moved to the target path, or nothing when the loop runs out.\<close>

fun waitForFile :: "(nat \<Rightarrow> poll) \<Rightarrow> nat \<Rightarrow> nat \<Rightarrow> js_error + nat option" where
  "waitForFile files i 0 = Inr None"
| "waitForFile files i (Suc left) =
     (case files i of
        PollThrows e \<Rightarrow> Inl e
      | NoFile \<Rightarrow> waitForFile files (Suc i) left
      | StagedFile sz \<Rightarrow>
          if sz > 1000 then Inr (Some sz) else waitForFile files (Suc i) left)"

definition downloadTimeout :: js_error where
  "downloadTimeout = Error (js ''Download timeout or file not found'')"

definition tryDownload :: "attempt \<Rightarrow> js_error + nat" where
  "tryDownload a =
     (case gotoDownloadUrl a of
        Some e \<Rightarrow> Inl e
      | None \<Rightarrow>
     (case readContent a of
        Some e \<Rightarrow> Inl e
      | None \<Rightarrow>
     (case gotoVideoUrl a of
        Some e \<Rightarrow> Inl e
      | None \<Rightarrow>
     (case triggerDownload a of
        Inl e \<Rightarrow> Inl e
      | Inr downloadSuccess \<Rightarrow>
          if downloadSuccess then
            (let maxWait = 60 in
             case waitForFile (staging a) 0 maxWait of
               Inl e \<Rightarrow> Inl e
             | Inr (Some sz) \<Rightarrow> Inr sz
             | Inr None \<Rightarrow> Inl downloadTimeout)
          else Inl downloadTimeout))))"

text \<open>
  Observable effects, in order: the start of a download attempt (with its
  \<open>retryCount\<close>), the wait of \<open>retryDelay\<close> milliseconds before the next attempt, an upload
  handed to the object store (with its key), and the pause between two records.
\<close>

datatype effect = DownloadAttempt nat | RetryDelay nat | S3Upload jsstring | Pause nat

text \<open>
  The function returns the target path on success; the model returns the size of the
  file now at that path. The argument \<open>attempts\<close> gives what the attempt with each
  \<open>retryCount\<close> meets.
\<close>

function downloadAuthenticatedMp3 ::
  "config \<Rightarrow> (nat \<Rightarrow> attempt) \<Rightarrow> nat \<Rightarrow> (js_error + nat) \<times> effect list" where
  "downloadAuthenticatedMp3 cfg attempts retryCount =
     (case tryDownload (attempts retryCount) of
        Inr sz \<Rightarrow> (Inr sz, [DownloadAttempt retryCount])
      | Inl error \<Rightarrow>
          if int retryCount < int (retryAttempts cfg) - 1 then
            (let (r, effs) = downloadAuthenticatedMp3 cfg attempts (retryCount + 1)
             in (r, DownloadAttempt retryCount # RetryDelay (retryDelay cfg) # effs))
          else (Inl error, [DownloadAttempt retryCount]))"
  by pat_completeness auto
termination
  by (relation "measure (\<lambda>(cfg, attempts, retryCount). retryAttempts cfg - retryCount)") auto

declare downloadAuthenticatedMp3.simps [simp del]

subsection \<open>uploadToS3 and createRAGMetadata\<close>

text \<open>\<open>Array.prototype.join\<close> on an array of strings.\<close>

fun join :: "jsstring list \<Rightarrow> jsstring \<Rightarrow> jsstring" where
  "join [] sep = []"
| "join [x] sep = x"
| "join (x # y # ys) sep = x @ sep @ join (y # ys) sep"

text \<open>The \<open>Metadata\<close> headers of the upload, without the \<open>uploaded-at\<close> time stamp.\<close>

definition uploadHeaders :: "metadata \<Rightarrow> jsstring \<Rightarrow> (string \<times> jsstring) list" where
  "uploadHeaders m sourceUrl =
     [(''original-title'', sanitizeMetadataValue (title m)),
      (''author'', sanitizeMetadataValue (author m)),
      (''topics'', sanitizeMetadataValue
                     (Some (case topics m of Some ts \<Rightarrow> join ts (js '','') | None \<Rightarrow> []))),
      (''podcast'', sanitizeMetadataValue (podcast m)),
      (''source-url'', sanitizeMetadataValue (Some sourceUrl))]"

record s3Result =
  Location :: jsstring
  Key :: jsstring

text \<open>
  The world of one run of the uploader: whether logging in throws, what the download
  attempts of the record with a given index meet, what the object store answers to an
  upload of a key with its headers (an error, or the location of the object), and
  whether closing the browser throws.
\<close>

record world =
  login :: "js_error option"
  attemptsOf :: "nat \<Rightarrow> nat \<Rightarrow> attempt"
  s3upload :: "jsstring \<Rightarrow> (string \<times> jsstring) list \<Rightarrow> js_error + jsstring"
  closeBrowser :: "js_error option"

definition uploadToS3 :: "world \<Rightarrow> jsstring \<Rightarrow> metadata \<Rightarrow> jsstring \<Rightarrow> js_error + s3Result" where
  "uploadToS3 w s3Key m sourceUrl =
     (case s3upload w s3Key (uploadHeaders m sourceUrl) of
        Inl e \<Rightarrow> Inl e
      | Inr loc \<Rightarrow> Inr \<lparr> Location = loc, Key = s3Key \<rparr>)"

text \<open>The RAG entry, without its time stamps, constants and the lower-cased search text.
  An absent author is interpolated as \<open>undefined\<close>.\<close>

record ragEntry =
  ragId :: jsstring
  contentTitle :: "jsstring option"
  contentAuthor :: "jsstring option"
  contentTopics :: "jsstring list"
  contentPodcast :: jsstring
  description :: jsstring
  s3Key :: jsstring
  s3Url :: jsstring
  originalUrl :: jsstring
  sourceDownloadUrl :: jsstring

definition createRAGMetadata :: "mp3Data \<Rightarrow> s3Result \<Rightarrow> nat \<Rightarrow> ragEntry" where
  "createRAGMetadata originalData s3Res index =
     \<lparr> ragId = js ''chabad-mp3-'' @ padStart (decimalString index) 4 0x30,
       contentTitle = title (metadata originalData),
       contentAuthor = author (metadata originalData),
       contentTopics = (case topics (metadata originalData) of Some ts \<Rightarrow> ts | None \<Rightarrow> []),
       contentPodcast =
         (case podcast (metadata originalData) of
            Some p \<Rightarrow> if p = [] then [] else p
          | None \<Rightarrow> []),
       description =
         js ''Audio class by '' @
         (case author (metadata originalData) of Some a \<Rightarrow> a | None \<Rightarrow> js ''undefined'') @
         js '' on '' @
         (case topics (metadata originalData) of
            Some ts \<Rightarrow> join ts (js '', '')
          | None \<Rightarrow> js ''Torah topics''),
       s3Key = Key s3Res,
       s3Url = Location s3Res,
       originalUrl = videoUrl originalData,
       sourceDownloadUrl = downloadUrl originalData \<rparr>"

subsection \<open>processSingleMp3, processAllMp3s and saveRAGMetadata\<close>

text \<open>An entry of \<open>uploadLog\<close>, without its time stamp. The failure entry records the
  error whose message the source stores.\<close>

datatype logEntry =
    LogSuccess nat "jsstring option" jsstring jsstring nat
  | LogFailed nat "jsstring option" jsstring jsstring js_error

text \<open>The fields of the uploader object that processing changes, and the effects so far.\<close>

record uploader =
  uploadedCount :: nat
  failedCount :: nat
  ragMetadata :: "ragEntry list"
  uploadLog :: "logEntry list"
  effects :: "effect list"

definition newUploader :: uploader where
  "newUploader =
     \<lparr> uploadedCount = 0, failedCount = 0, ragMetadata = [], uploadLog = [], effects = [] \<rparr>"

text \<open>
  The \<open>try\<close> block of \<open>processSingleMp3\<close> up to the upload: download, size check, key,
  upload. It yields the effects it caused and either the error thrown or the file size,
  the key and the store's answer. After a download that succeeded the file exists at the
  target path with the size that was staged. Errors of the local file system when the
  temporary file is read or deleted are left out.
\<close>

definition tryProcess ::
  "config \<Rightarrow> world \<Rightarrow> mp3Data \<Rightarrow> nat \<Rightarrow> (js_error + nat \<times> jsstring \<times> s3Result) \<times> effect list" where
  "tryProcess cfg w mp3 index =
     (case downloadAuthenticatedMp3 cfg (attemptsOf w index) 0 of
        (Inl e, effs) \<Rightarrow> (Inl e, effs)
      | (Inr fileSize, effs) \<Rightarrow>
          if fileSize < 1000
          then (Inl (Error (js ''File too small ('' @ decimalString fileSize @
                            js '' bytes) - likely an error page'')), effs)
          else
            (case generateS3Key mp3 index of
               Inl e \<Rightarrow> (Inl e, effs)
             | Inr key \<Rightarrow>
                 (case uploadToS3 w key (metadata mp3) (videoUrl mp3) of
                    Inl e \<Rightarrow> (Inl e, effs @ [S3Upload key])
                  | Inr s3Res \<Rightarrow> (Inr (fileSize, key, s3Res), effs @ [S3Upload key]))))"

definition processSingleMp3 ::
  "config \<Rightarrow> world \<Rightarrow> mp3Data \<Rightarrow> nat \<Rightarrow> uploader \<Rightarrow> (js_error + ragEntry) \<times> uploader" where
  "processSingleMp3 cfg w mp3 index u =
     (case tryProcess cfg w mp3 index of
        (Inr (fileSize, key, s3Res), effs) \<Rightarrow>
          (let ragEntry = createRAGMetadata mp3 s3Res index
           in (Inr ragEntry,
               u \<lparr> ragMetadata := ragMetadata u @ [ragEntry],
                   uploadLog := uploadLog u @
                     [LogSuccess index (title (metadata mp3)) key (Location s3Res) fileSize],
                   uploadedCount := uploadedCount u + 1,
                   effects := effects u @ effs \<rparr>))
      | (Inl error, effs) \<Rightarrow>
          (Inl error,
           u \<lparr> uploadLog := uploadLog u @
                 [LogFailed index (title (metadata mp3)) (downloadUrl mp3) (videoUrl mp3) error],
               failedCount := failedCount u + 1,
               effects := effects u @ effs \<rparr>))"

text \<open>The loop of \<open>processAllMp3s\<close> from position \<open>i\<close> on; the exception of a record is
  caught and dropped, and a pause follows every record but the last. The authentication
  test that precedes the loop only writes to the console, whatever it finds.\<close>

fun processFrom :: "config \<Rightarrow> world \<Rightarrow> mp3Data list \<Rightarrow> nat \<Rightarrow> uploader \<Rightarrow> uploader" where
  "processFrom cfg w [] i u = u"
| "processFrom cfg w (mp3 # rest) i u =
     (let globalIndex = i + 1;
          u1 = snd (processSingleMp3 cfg w mp3 globalIndex u);
          u2 = (if rest \<noteq> [] then u1 \<lparr> effects := effects u1 @ [Pause 2000] \<rparr> else u1)
      in processFrom cfg w rest (i + 1) u2)"

definition processAllMp3s :: "config \<Rightarrow> world \<Rightarrow> mp3Data list \<Rightarrow> uploader \<Rightarrow> js_error + uploader" where
  "processAllMp3s cfg w mp3Array u =
     (case login w of
        Some e \<Rightarrow> Inl e
      | None \<Rightarrow>
          (let u' = processFrom cfg w mp3Array 0 u
           in case closeBrowser w of Some e \<Rightarrow> Inl e | None \<Rightarrow> Inr u'))"

subsection \<open>The success rate of the run summary\<close>

text \<open>
  \<open>((uploaded / (uploaded + failed)) * 100).toFixed(2)\<close> is computed on IEEE 754 binary64
  numbers. A finite non-negative number is \<open>Num m e\<close>, standing for \<open>m * 2^e\<close>, with
  \<open>m < 2^53\<close>. Every operation rounds its exact result to the nearest such number, ties
  to the even mantissa. Exponent range and subnormal numbers are left out: the counters
  stay far below \<open>2^53\<close>, and the quotients and products of this computation lie between
  \<open>2^-53\<close> and 100.
\<close>

datatype number = NaN | Num nat int

function bitLength :: "nat \<Rightarrow> nat" where
  "bitLength n = (if n = 0 then 0 else Suc (bitLength (n div 2)))"
  by pat_completeness auto
termination
  by (relation "measure id") auto

declare bitLength.simps [simp del]

text \<open>\<open>n / d\<close> rounded to the nearest integer, ties to even.\<close>

definition roundHalfEven :: "nat \<Rightarrow> nat \<Rightarrow> nat" where
  "roundHalfEven n d =
     (let q = n div d; r = n mod d
      in if 2 * r < d then q
         else if 2 * r > d then q + 1
         else if even q then q else q + 1)"

text \<open>
  The binary64 number nearest to \<open>n / d\<close> for positive \<open>n\<close> and \<open>d\<close>: \<open>lg\<close> is
  \<open>\<lfloor>log\<^sub>2 (n / d)\<rfloor>\<close>, so that \<open>n / d / 2^e\<close> lies in \<open>[2^52, 2^53)\<close>; rounding
  it may reach \<open>2^53\<close>, which is \<open>2^52\<close> at the next exponent.
\<close>

definition nearestDouble :: "nat \<Rightarrow> nat \<Rightarrow> number" where
  "nearestDouble n d =
     (let L = int (bitLength n) - int (bitLength d);
          lg = (if (if L \<ge> 0 then n \<ge> d * 2 ^ nat L else n * 2 ^ nat (- L) \<ge> d)
                then L else L - 1);
          e = lg - 52;
          m = (if e \<ge> 0 then roundHalfEven n (d * 2 ^ nat e)
               else roundHalfEven (n * 2 ^ nat (- e)) d)
      in if m = 2 ^ 53 then Num (2 ^ 52) (e + 1) else Num m e)"

text \<open>\<open>a / b\<close> for two counters. \<open>0 / 0\<close> is NaN; a positive counter is never divided
  by zero here, since the divisor is a sum that contains it.\<close>

definition divide_num :: "nat \<Rightarrow> nat \<Rightarrow> number" where
  "divide_num a b =
     (if b = 0 then NaN
      else if a = 0 then Num 0 0
      else nearestDouble a b)"

text \<open>\<open>x * c\<close> for a positive integer constant \<open>c\<close>.\<close>

definition times_num :: "number \<Rightarrow> nat \<Rightarrow> number" where
  "times_num x c =
     (case x of
        NaN \<Rightarrow> NaN
      | Num m e \<Rightarrow>
          if m = 0 then Num 0 0
          else if e \<ge> 0 then nearestDouble (m * c * 2 ^ nat e) 1
          else nearestDouble (m * c) (2 ^ nat (- e)))"

text \<open>
  \<open>x.toFixed(2)\<close> for \<open>x < 10^21\<close>: the integer \<open>n\<close> with \<open>n / 100\<close> closest to the exact
  value of \<open>x\<close>, the larger one of two; its digits, filled with zeros to three at least,
  with a point before the last two.
\<close>

definition toFixed2 :: "number \<Rightarrow> jsstring" where
  "toFixed2 x =
     (case x of
        NaN \<Rightarrow> js ''NaN''
      | Num m e \<Rightarrow>
          (let n = (if e \<ge> 0 then 100 * m * 2 ^ nat e
                    else (2 * (100 * m) + 2 ^ nat (- e)) div (2 * 2 ^ nat (- e)));
               digits = padStart (decimalString n) 3 0x30
           in take (length digits - 2) digits @ js ''.'' @ drop (length digits - 2) digits))"

record summary =
  totalProcessed :: nat
  successful :: nat
  failed :: nat
  successRate :: jsstring

text \<open>The \<open>summary\<close> object that \<open>saveRAGMetadata\<close> writes to the upload log file.\<close>

definition saveRAGMetadata :: "uploader \<Rightarrow> summary" where
  "saveRAGMetadata u =
     \<lparr> totalProcessed = uploadedCount u + failedCount u,
       successful = uploadedCount u,
       failed = failedCount u,
       successRate =
         toFixed2 (times_num (divide_num (uploadedCount u) (uploadedCount u + failedCount u)) 100)
         @ js ''%'' \<rparr>"

section \<open>Examples\<close>

definition bereishitRecord :: "jsstring \<Rightarrow> mp3Data" where
  "bereishitRecord url =
     \<lparr> videoUrl = url,
       downloadUrl = js ''https://www.chabad.org/multimedia/filedownload_cdo/aid/4886453'',
       metadata = \<lparr> title = Some (js ''Rabbi Gordon: Bereishit!''), author = None,
                    topics = None, podcast = None, synopsis = None \<rparr>,
       scrapedAt = js ''2024-01-01T00:00:00.000Z'' \<rparr>"

definition gordonUrl :: jsstring where
  "gordonUrl = js ''https://www.chabad.org/multimedia/video_cdo/aid/4886452/jewish/Bereishit.htm''"

definition earlierAidUrl :: jsstring where
  "earlierAidUrl =
     js ''https://www.chabad.org/aid/1/multimedia/video_cdo/aid/4886452/jewish/Bereishit.htm''"

definition tanyaGordonUrl :: jsstring where
  "tanyaGordonUrl =
     js ''https://www.chabad.org/library/tanya/multimedia/video_cdo/aid/4886452/jewish/Bereishit.htm''"

text \<open>Example worlds: an attempt that stages a 5 MB file at the third poll, and one
  that only ever stages a 500-byte file.\<close>

definition goodAttempt :: attempt where
  "goodAttempt =
     \<lparr> gotoDownloadUrl = None, readContent = None, gotoVideoUrl = None,
       triggerDownload = Inr True,
       staging = (\<lambda>i. if i < 2 then NoFile else StagedFile 5000000) \<rparr>"

definition smallFileAttempt :: attempt where
  "smallFileAttempt =
     \<lparr> gotoDownloadUrl = None, readContent = None, gotoVideoUrl = None,
       triggerDownload = Inr True,
       staging = (\<lambda>i. StagedFile 500) \<rparr>"

definition storeLocation :: "jsstring \<Rightarrow> jsstring" where
  "storeLocation key = js ''https://bucket.s3.amazonaws.com/'' @ key"

definition goodWorld :: world where
  "goodWorld =
     \<lparr> login = None, attemptsOf = (\<lambda>index retryCount. goodAttempt),
       s3upload = (\<lambda>key headers. Inr (storeLocation key)), closeBrowser = None \<rparr>"

definition secondFailsWorld :: world where
  "secondFailsWorld =
     \<lparr> login = None,
       attemptsOf = (\<lambda>index retryCount. if index = 2 then smallFileAttempt else goodAttempt),
       s3upload = (\<lambda>key headers. Inr (storeLocation key)), closeBrowser = None \<rparr>"

definition untitledRecord :: mp3Data where
  "untitledRecord =
     \<lparr> videoUrl = gordonUrl,
       downloadUrl = js ''https://www.chabad.org/multimedia/filedownload_cdo/aid/4886453'',
       metadata = \<lparr> title = None, author = Some (js ''Yehoshua B. Gordon''),
                    topics = None, podcast = None, synopsis = None \<rparr>,
       scrapedAt = js ''2024-01-01T00:00:00.000Z'' \<rparr>"

definition threeRecords :: "mp3Data list" where
  "threeRecords = [bereishitRecord gordonUrl, bereishitRecord tanyaGordonUrl, bereishitRecord gordonUrl]"

text \<open>Example pages.\<close>

definition link :: "jsstring \<Rightarrow> element" where
  "link text =
     \<lparr> href = None, titleAttr = None, innerText = Some text, offsetParent = True,
       box = Some (80, 20) \<rparr>"

definition blankPage :: page where
  "blankPage =
     \<lparr> querySelectorAll = (\<lambda>selector. Some []), pageTitle = Some (js ''Bereishit''),
       pageUrl = gordonUrl, bodyInnerText = Some (js ''Rabbi Gordon teaches Bereishit'') \<rparr>"

text \<open>A page whose first author selector matches a link with a blank text, while the
  second, wider selector first matches the link that names the author.\<close>

definition bylinePage :: page where
  "bylinePage =
     blankPage \<lparr> querySelectorAll :=
       (\<lambda>selector.
          if selector = ''span.article-header__byline a'' then Some [link (js '' '')]
          else if selector = ''.article-header__byline a''
          then Some [link (js ''Yehoshua B. Gordon''), link (js '' '')]
          else Some []) \<rparr>"

text \<open>A page with a dormant reCAPTCHA widget: the element is there, without a box.\<close>

definition dormantWidgetPage :: page where
  "dormantWidgetPage =
     blankPage \<lparr> querySelectorAll :=
       (\<lambda>selector.
          if selector = ''div[class*=\"g-recaptcha\"]:not([style*=\"display: none\"])''
          then Some [\<lparr> href = None, titleAttr = None, innerText = Some [],
                       offsetParent = False, box = None \<rparr>]
          else Some []) \<rparr>"

text \<open>A page with a reCAPTCHA placeholder that is not rendered yet: the \<open>div\<close> is laid
  out as an empty block, 304 wide and 0 high, inside its parent.\<close>

definition placeholderWidget :: element where
  "placeholderWidget =
     \<lparr> href = None, titleAttr = None, innerText = Some [], offsetParent = True,
       box = Some (304, 0) \<rparr>"

definition placeholderWidgetPage :: page where
  "placeholderWidgetPage =
     blankPage \<lparr> querySelectorAll :=
       (\<lambda>selector.
          if selector = ''div[class*=\"g-recaptcha\"]:not([style*=\"display: none\"])''
          then Some [placeholderWidget]
          else Some []) \<rparr>"

text \<open>
  The home page, started from the URL without the final slash. \<open>new URL\<close> adds the
  slash; both strings name the same page, whose "view all" link points to \<open>/\<close>.
\<close>

definition homeAsGiven :: jsstring where
  "homeAsGiven = js ''https://www.chabad.org''"

definition homeUrl :: jsstring where
  "homeUrl = js ''https://www.chabad.org/''"

definition homePage :: page where
  "homePage =
     blankPage \<lparr> pageUrl := homeUrl, querySelectorAll :=
       (\<lambda>selector.
          if selector = ''a.vs-video-row__header__more-link''
          then Some [\<lparr> href = Some (js ''/''), titleAttr = None,
                       innerText = Some (js ''View All''), offsetParent = True,
                       box = Some (80, 20) \<rparr>]
          else Some []) \<rparr>"

definition homeSite :: site where
  "homeSite =
     \<lparr> goto = (\<lambda>url. if url = homeAsGiven \<or> url = homeUrl then Some (\<lambda>k. homePage) else None),
       resolveUrl = (\<lambda>h. Some (if h = homeAsGiven then homeUrl
                               else if startsWith h (js ''http'') then h else BASE_URL @ h)),
       headless = False,
       scrapedAtOf = (\<lambda>url. js ''2024-01-01T00:00:00.000Z'') \<rparr>"

text \<open>A site of one page whose "view all" link leads back to the page itself.\<close>

definition loopUrl :: jsstring where
  "loopUrl = js ''https://www.chabad.org/multimedia/video_cdo/aid/1779405/jewish/Rambam.htm''"

definition loopPage :: page where
  "loopPage =
     blankPage \<lparr> pageUrl := loopUrl, querySelectorAll :=
       (\<lambda>selector.
          if selector = ''a.vs-video-row__header__more-link''
          then Some [\<lparr> href = Some (js ''/multimedia/video_cdo/aid/1779405/jewish/Rambam.htm''),
                       titleAttr = None, innerText = Some (js ''View All''),
                       offsetParent = True, box = Some (80, 20) \<rparr>]
          else Some []) \<rparr>"

definition loopSite :: site where
  "loopSite =
     \<lparr> goto = (\<lambda>url. if url = loopUrl then Some (\<lambda>k. loopPage) else None),
       resolveUrl = (\<lambda>h. Some (if startsWith h (js ''http'') then h else BASE_URL @ h)),
       headless = False,
       scrapedAtOf = (\<lambda>url. js ''2024-01-01T00:00:00.000Z'') \<rparr>"

text \<open>Two listing pages that both show the same video link; the video page has no
  download link.\<close>

definition chapterUrl :: jsstring where
  "chapterUrl = js ''https://www.chabad.org/library/tanya/tanya_cdo/aid/1028862/jewish/Chapter-1.htm''"

definition chapterListing :: page where
  "chapterListing =
     blankPage \<lparr> pageUrl := chapterUrl, querySelectorAll :=
       (\<lambda>selector.
          if selector = ''a.watch-link''
          then Some [\<lparr> href = Some (js ''/library/tanya/tanya_cdo/aid/1028862/jewish/Chapter-1.htm''),
                       titleAttr = None, innerText = Some (js ''Chapter 1''),
                       offsetParent = True, box = Some (80, 20) \<rparr>]
          else Some []) \<rparr>"

definition twoListings :: pagination where
  "twoListings =
     \<lparr> navigateToStart = None,
       listings = (\<lambda>k. \<lparr> dom = chapterListing, hasEnabledNextButton = (k = 0),
                         clickNextButton = (k = 0) \<rparr>),
       videoPageAt = (\<lambda>i url. Some blankPage),
       visitedAt = (\<lambda>i. js ''2024-01-01T00:00:00.000Z'') \<rparr>"

section \<open>Properties\<close>

lemma set_trim_subset: "set (trim s) \<subseteq> set s"
proof -
  have "set (trim s) \<subseteq> set (dropWhile isWhiteSpace s)"
    unfolding trim_def using set_dropWhileD by fastforce
  also have "\<dots> \<subseteq> set s"
    using set_dropWhileD by fastforce
  finally show ?thesis .
qed

lemma length_trim_le: "length (trim s) \<le> length s"
proof -
  have "length (trim s) \<le> length (dropWhile isWhiteSpace s)"
    unfolding trim_def by (simp add: length_dropWhile_le order.trans [OF length_dropWhile_le])
  also have "\<dots> \<le> length s"
    by (rule length_dropWhile_le)
  finally show ?thesis .
qed

subsection \<open>Storage keys\<close>

lemma startsWith_iff: "startsWith s p \<longleftrightarrow> prefix p s"
  by (induction s p rule: startsWith.induct) auto

lemma str_includes_iff: "str_includes s sub \<longleftrightarrow> (\<exists>pre post. s = pre @ sub @ post)"
proof (induction s)
  case Nil
  then show ?case by auto
next
  case (Cons c cs)
  show ?case
  proof
    assume "str_includes (c # cs) sub"
    then consider "prefix sub (c # cs)" | "str_includes cs sub"
      by (auto simp: startsWith_iff split: if_splits)
    then show "\<exists>pre post. c # cs = pre @ sub @ post"
    proof cases
      case 1
      then obtain post where "c # cs = sub @ post" by (auto simp: prefix_def)
      then have "c # cs = [] @ sub @ post" by simp
      then show ?thesis by blast
    next
      case 2
      with Cons.IH obtain pre post where "cs = pre @ sub @ post" by blast
      then have "c # cs = (c # pre) @ sub @ post" by simp
      then show ?thesis by blast
    qed
  next
    assume "\<exists>pre post. c # cs = pre @ sub @ post"
    then obtain pre post where eq: "c # cs = pre @ sub @ post" by blast
    show "str_includes (c # cs) sub"
    proof (cases pre)
      case Nil
      with eq have "prefix sub (c # cs)" by (simp add: prefix_def)
      then show ?thesis by (simp add: startsWith_iff)
    next
      case (Cons p ps)
      with eq have "cs = ps @ sub @ post" by simp
      with Cons.IH have "str_includes cs sub" by blast
      then show ?thesis by simp
    qed
  qed
qed

lemma str_includes_part:
  assumes "str_includes s (a @ b @ c)"
  shows "str_includes s b"
proof -
  from assms obtain pre post where "s = pre @ (a @ b @ c) @ post"
    by (auto simp: str_includes_iff)
  then have "s = (pre @ a) @ b @ (c @ post)" by simp
  then show ?thesis unfolding str_includes_iff by blast
qed

lemma js_append: "js (a @ b) = js a @ js b"
  by (simp add: js_def)

lemma set_replaceWhiteSpaceRuns:
  "set (replaceWhiteSpaceRuns s) \<subseteq> {c \<in> set s. \<not> isWhiteSpace c} \<union> {0x2D}"
proof (induction s rule: replaceWhiteSpaceRuns.induct)
  case 1
  then show ?case by simp
next
  case (2 c cs)
  show ?case
  proof (cases "isWhiteSpace c")
    case True
    have "set (dropWhile isWhiteSpace cs) \<subseteq> set cs"
      using set_dropWhileD by fastforce
    with 2(1) [OF True] True show ?thesis by auto
  next
    case False
    with 2(2) [OF False] show ?thesis by auto
  qed
qed

text \<open>What \<open>generateS3Key\<close> hands to \<open>toLowerCase\<close> holds ASCII letters, digits and
  hyphens only.\<close>

lemma cleaned_title_ascii:
  assumes "c \<in> set (replaceWhiteSpaceRuns (stripTitleChars t))"
  shows "isAsciiLetter c \<or> isDigit c \<or> c = 0x2D"
proof -
  from assms set_replaceWhiteSpaceRuns [of "stripTitleChars t"]
  have "(c \<in> set (stripTitleChars t) \<and> \<not> isWhiteSpace c) \<or> c = 0x2D" by auto
  then show ?thesis by (auto simp: stripTitleChars_def)
qed

lemma generateS3Key_format:
  assumes "title (metadata mp3) = Some t"
  shows "generateS3Key mp3 index =
         Inr (contentTypeOf (videoUrl mp3) @ js ''/'' @ cleanTitle t @ js ''/'' @
              aidOf (videoUrl mp3) @ js ''/'' @ paddedIndex index @ js ''-'' @
              cleanFilename t @ js ''.mp3'')"
  using assms by (simp add: generateS3Key_def)

lemma cleaned_bereishit:
  "toLowerCaseAscii (replaceWhiteSpaceRuns (stripTitleChars (js ''Rabbi Gordon: Bereishit!''))) =
   js ''rabbi-gordon-bereishit''"
  by (simp add: toLowerCaseAscii_def stripTitleChars_def isAsciiLetter_def isDigit_def
      isWhiteSpace_def js_def)

lemma cleanTitle_bereishit:
  "cleanTitle (js ''Rabbi Gordon: Bereishit!'') = js ''rabbi-gordon-bereishit''"
  unfolding cleanTitle_def cleaned_bereishit by (simp add: substring0_def js_def)

lemma cleanFilename_bereishit:
  "cleanFilename (js ''Rabbi Gordon: Bereishit!'') = js ''rabbi-gordon-bereishit''"
  unfolding cleanFilename_def cleaned_bereishit by (simp add: substring0_def js_def)

lemma paddedIndex_1: "paddedIndex 1 = js ''0001''"
  by (simp add: paddedIndex_def padStart_def decimalString.simps js_def numeral_3_eq_3)

text \<open>
  C1, as amended. The key is a function of the record and the index, of the shape
  \<open>{contentType}/{cleanTitle}/{aid}/{paddedIndex}-{cleanFilename}.mp3\<close> whenever the record
  has a title. For a record whose video URL contains
  \<open>/multimedia/video_cdo/aid/4886452/\<close>, contains no \<open>/library/tanya/\<close> (which is tested
  first) and whose leftmost \<open>/aid/<digits>\<close> is \<open>/aid/4886452\<close>, with the title
  \<open>Rabbi Gordon: Bereishit!\<close>, the key at index 1 is
  \<open>rabbi-gordon/rabbi-gordon-bereishit/4886452/0001-rabbi-gordon-bereishit.mp3\<close>.
\<close>

theorem generateS3Key_bereishit:
  assumes url: "str_includes (videoUrl mp3) (js ''/multimedia/video_cdo/aid/4886452/'')"
    and not_tanya: "\<not> str_includes (videoUrl mp3) (js ''/library/tanya/'')"
    and aid: "matchAid (videoUrl mp3) = Some (js ''4886452'')"
    and t: "title (metadata mp3) = Some (js ''Rabbi Gordon: Bereishit!'')"
  shows "generateS3Key mp3 1 =
           Inr (js ''rabbi-gordon/rabbi-gordon-bereishit/4886452/0001-rabbi-gordon-bereishit.mp3'') \<and>
         (\<forall>other index t'. title (metadata other) = Some t' \<longrightarrow>
            generateS3Key other index =
            Inr (contentTypeOf (videoUrl other) @ js ''/'' @ cleanTitle t' @ js ''/'' @
                 aidOf (videoUrl other) @ js ''/'' @ paddedIndex index @ js ''-'' @
                 cleanFilename t' @ js ''.mp3''))"
proof -
  have "js ''/multimedia/video_cdo/aid/4886452/'' =
        [] @ js ''/multimedia/video_cdo/'' @ js ''aid/4886452/''"
    by (simp add: js_def)
  with url have "str_includes (videoUrl mp3) (js ''/multimedia/video_cdo/'')"
    using str_includes_part by metis
  with not_tanya have ct: "contentTypeOf (videoUrl mp3) = js ''rabbi-gordon''"
    by (simp add: contentTypeOf_def)
  from aid have a: "aidOf (videoUrl mp3) = js ''4886452''"
    by (simp add: aidOf_def)
  have "generateS3Key mp3 1 =
        Inr (js ''rabbi-gordon'' @ js ''/'' @ js ''rabbi-gordon-bereishit'' @ js ''/'' @
             js ''4886452'' @ js ''/'' @ js ''0001'' @ js ''-'' @
             js ''rabbi-gordon-bereishit'' @ js ''.mp3'')"
    using generateS3Key_format [OF t, of 1]
    by (simp only: ct a cleanTitle_bereishit cleanFilename_bereishit paddedIndex_1)
  then have "generateS3Key mp3 1 =
         Inr (js ''rabbi-gordon/rabbi-gordon-bereishit/4886452/0001-rabbi-gordon-bereishit.mp3'')"
    by (simp add: js_append [symmetric])
  then show ?thesis
    using generateS3Key_format by blast
qed

theorem generateS3Key_bereishit_witness:
  "str_includes gordonUrl (js ''/multimedia/video_cdo/aid/4886452/'') \<and>
   \<not> str_includes gordonUrl (js ''/library/tanya/'') \<and>
   matchAid gordonUrl = Some (js ''4886452'') \<and>
   generateS3Key (bereishitRecord gordonUrl) 1 =
     Inr (js ''rabbi-gordon/rabbi-gordon-bereishit/4886452/0001-rabbi-gordon-bereishit.mp3'')"
proof -
  have 1: "str_includes (videoUrl (bereishitRecord gordonUrl))
             (js ''/multimedia/video_cdo/aid/4886452/'')"
    by (simp add: bereishitRecord_def gordonUrl_def js_def)
  have 2: "\<not> str_includes (videoUrl (bereishitRecord gordonUrl)) (js ''/library/tanya/'')"
    by (simp add: bereishitRecord_def gordonUrl_def js_def)
  have 3: "matchAid (videoUrl (bereishitRecord gordonUrl)) = Some (js ''4886452'')"
    by (simp add: bereishitRecord_def gordonUrl_def js_def isDigit_def)
  have 4: "title (metadata (bereishitRecord gordonUrl)) = Some (js ''Rabbi Gordon: Bereishit!'')"
    by (simp add: bereishitRecord_def)
  have v: "videoUrl (bereishitRecord gordonUrl) = gordonUrl"
    by (simp add: bereishitRecord_def)
  from generateS3Key_bereishit [OF 1 2 3 4] 1 2 3 show ?thesis
    unfolding v by blast
qed

text \<open>
  The claim as stated fails for a URL that also contains \<open>/library/tanya/\<close>, which is
  classified \<open>tanya\<close>, and for a URL with an earlier \<open>/aid/<digits>\<close>, whose id is taken.
\<close>

theorem generateS3Key_bereishit_counterexample:
  "str_includes (videoUrl (bereishitRecord tanyaGordonUrl))
     (js ''/multimedia/video_cdo/aid/4886452/'') \<and>
   title (metadata (bereishitRecord tanyaGordonUrl)) = Some (js ''Rabbi Gordon: Bereishit!'') \<and>
   generateS3Key (bereishitRecord tanyaGordonUrl) 1 =
     Inr (js ''tanya/rabbi-gordon-bereishit/4886452/0001-rabbi-gordon-bereishit.mp3'') \<and>
   generateS3Key (bereishitRecord tanyaGordonUrl) 1 \<noteq>
     Inr (js ''rabbi-gordon/rabbi-gordon-bereishit/4886452/0001-rabbi-gordon-bereishit.mp3'') \<and>
   str_includes (videoUrl (bereishitRecord earlierAidUrl))
     (js ''/multimedia/video_cdo/aid/4886452/'') \<and>
   generateS3Key (bereishitRecord earlierAidUrl) 1 =
     Inr (js ''rabbi-gordon/rabbi-gordon-bereishit/1/0001-rabbi-gordon-bereishit.mp3'') \<and>
   generateS3Key (bereishitRecord earlierAidUrl) 1 \<noteq>
     Inr (js ''rabbi-gordon/rabbi-gordon-bereishit/4886452/0001-rabbi-gordon-bereishit.mp3'')"
proof -
  have v: "videoUrl (bereishitRecord url) = url" for url
    by (simp add: bereishitRecord_def)
  have 1: "str_includes tanyaGordonUrl (js ''/multimedia/video_cdo/aid/4886452/'')"
    by (simp add: tanyaGordonUrl_def js_def)
  have 2: "title (metadata (bereishitRecord url)) = Some (js ''Rabbi Gordon: Bereishit!'')" for url
    by (simp add: bereishitRecord_def)
  have ct: "contentTypeOf tanyaGordonUrl = js ''tanya''"
    by (simp add: contentTypeOf_def tanyaGordonUrl_def js_def)
  have a: "aidOf tanyaGordonUrl = js ''4886452''"
    by (simp add: aidOf_def tanyaGordonUrl_def js_def isDigit_def)
  have "generateS3Key (bereishitRecord tanyaGordonUrl) 1 =
        Inr (js ''tanya'' @ js ''/'' @ js ''rabbi-gordon-bereishit'' @ js ''/'' @
             js ''4886452'' @ js ''/'' @ js ''0001'' @ js ''-'' @
             js ''rabbi-gordon-bereishit'' @ js ''.mp3'')"
    using generateS3Key_format [OF 2, of tanyaGordonUrl 1]
    by (simp only: v ct a cleanTitle_bereishit cleanFilename_bereishit paddedIndex_1)
  then have 3: "generateS3Key (bereishitRecord tanyaGordonUrl) 1 =
             Inr (js ''tanya/rabbi-gordon-bereishit/4886452/0001-rabbi-gordon-bereishit.mp3'')"
    by (simp add: js_append [symmetric])
  have 4: "js ''tanya/rabbi-gordon-bereishit/4886452/0001-rabbi-gordon-bereishit.mp3'' \<noteq>
           js ''rabbi-gordon/rabbi-gordon-bereishit/4886452/0001-rabbi-gordon-bereishit.mp3''"
    by (simp add: js_def)
  have 5: "str_includes earlierAidUrl (js ''/multimedia/video_cdo/aid/4886452/'')"
    by (simp add: earlierAidUrl_def js_def)
  have ct': "contentTypeOf earlierAidUrl = js ''rabbi-gordon''"
    by (simp add: contentTypeOf_def earlierAidUrl_def js_def)
  have a': "aidOf earlierAidUrl = js ''1''"
    by (simp add: aidOf_def earlierAidUrl_def js_def isDigit_def)
  have "generateS3Key (bereishitRecord earlierAidUrl) 1 =
        Inr (js ''rabbi-gordon'' @ js ''/'' @ js ''rabbi-gordon-bereishit'' @ js ''/'' @
             js ''1'' @ js ''/'' @ js ''0001'' @ js ''-'' @
             js ''rabbi-gordon-bereishit'' @ js ''.mp3'')"
    using generateS3Key_format [OF 2, of earlierAidUrl 1]
    by (simp only: v ct' a' cleanTitle_bereishit cleanFilename_bereishit paddedIndex_1)
  then have 6: "generateS3Key (bereishitRecord earlierAidUrl) 1 =
             Inr (js ''rabbi-gordon/rabbi-gordon-bereishit/1/0001-rabbi-gordon-bereishit.mp3'')"
    by (simp add: js_append [symmetric])
  have 7: "js ''rabbi-gordon/rabbi-gordon-bereishit/1/0001-rabbi-gordon-bereishit.mp3'' \<noteq>
           js ''rabbi-gordon/rabbi-gordon-bereishit/4886452/0001-rabbi-gordon-bereishit.mp3''"
    by (simp add: js_def)
  from 1 2 3 4 5 6 7 show ?thesis by (simp add: v)
qed

subsection \<open>Retrieval with retries\<close>

lemma waitForFile_numeral:
  "waitForFile files i (numeral n) =
     (case files i of
        PollThrows e \<Rightarrow> Inl e
      | NoFile \<Rightarrow> waitForFile files (Suc i) (pred_numeral n)
      | StagedFile sz \<Rightarrow>
          if sz > 1000 then Inr (Some sz) else waitForFile files (Suc i) (pred_numeral n))"
  by (simp only: numeral_eq_Suc waitForFile.simps)

lemma tryDownload_good: "tryDownload goodAttempt = Inr 5000000"
  by (simp add: tryDownload_def goodAttempt_def waitForFile_numeral cong: poll.case_cong_weak)

lemma waitForFile_small:
  "(\<And>j. files j = StagedFile 500) \<Longrightarrow> waitForFile files i left = Inr None"
  by (induction left arbitrary: i) simp_all

lemma tryDownload_small: "tryDownload smallFileAttempt = Inl downloadTimeout"
  by (simp add: tryDownload_def smallFileAttempt_def waitForFile_small)

text \<open>The number of the last attempt: \<open>retryCount < retryAttempts - 1\<close> fails first at
  \<open>retryAttempts - 1\<close>, and at once when \<open>retryAttempts\<close> is 0.\<close>

lemma retry_condition:
  "int retryCount < int (retryAttempts cfg) - 1 \<longleftrightarrow> retryCount < retryAttempts cfg - 1"
  by auto

lemma download_all_fail:
  assumes "r \<le> retryAttempts cfg - 1"
    and "\<And>k. r \<le> k \<Longrightarrow> k \<le> retryAttempts cfg - 1 \<Longrightarrow> tryDownload (attempts k) = Inl (err k)"
  shows "downloadAuthenticatedMp3 cfg attempts r =
         (Inl (err (retryAttempts cfg - 1)),
          concat (map (\<lambda>k. [DownloadAttempt k, RetryDelay (retryDelay cfg)])
                    [r ..< retryAttempts cfg - 1]) @
          [DownloadAttempt (retryAttempts cfg - 1)])"
  using assms
proof (induction cfg attempts r rule: downloadAuthenticatedMp3.induct)
  case (1 cfg attempts r)
  have here: "tryDownload (attempts r) = Inl (err r)"
    using 1(2,3) by simp
  show ?case
  proof (cases "r < retryAttempts cfg - 1")
    case True
    then have c: "int r < int (retryAttempts cfg) - 1" by (simp add: retry_condition)
    have ih: "downloadAuthenticatedMp3 cfg attempts (Suc r) =
         (Inl (err (retryAttempts cfg - 1)),
          concat (map (\<lambda>k. [DownloadAttempt k, RetryDelay (retryDelay cfg)])
                    [Suc r ..< retryAttempts cfg - 1]) @
          [DownloadAttempt (retryAttempts cfg - 1)])"
      using 1(1) [OF here c] True 1(3) by simp
    have u: "[r ..< retryAttempts cfg - 1] = r # [Suc r ..< retryAttempts cfg - 1]"
      using True by (simp add: upt_conv_Cons)
    show ?thesis
      unfolding u by (simp add: downloadAuthenticatedMp3.simps [of cfg attempts r] here c ih)
  next
    case False
    with 1(2) have eq: "r = retryAttempts cfg - 1" by simp
    then have c: "\<not> int r < int (retryAttempts cfg) - 1" by (simp add: retry_condition)
    have "downloadAuthenticatedMp3 cfg attempts r = (Inl (err r), [DownloadAttempt r])"
      by (simp add: downloadAuthenticatedMp3.simps [of cfg attempts r] here c)
    then show ?thesis
      using eq by simp
  qed
qed

lemma download_error_only_after_all_fail:
  assumes "fst (downloadAuthenticatedMp3 cfg attempts r) = Inl e"
    and "r \<le> k" and "k \<le> retryAttempts cfg - 1"
  shows "isl (tryDownload (attempts k))"
  using assms
proof (induction cfg attempts r rule: downloadAuthenticatedMp3.induct)
  case (1 cfg attempts r)
  from 1(2) obtain error where here: "tryDownload (attempts r) = Inl error"
    by (cases "tryDownload (attempts r)")
       (simp_all add: downloadAuthenticatedMp3.simps [of cfg attempts r])
  show ?case
  proof (cases "k = r")
    case True
    with here show ?thesis by simp
  next
    case False
    with 1(3,4) have c: "int r < int (retryAttempts cfg) - 1" and rk: "r + 1 \<le> k"
      by (auto simp: retry_condition)
    from 1(2) have "fst (downloadAuthenticatedMp3 cfg attempts (r + 1)) = Inl e"
      by (simp add: downloadAuthenticatedMp3.simps [of cfg attempts r] here c
          split: prod.splits)
    from 1(1) [OF here c this rk 1(4)] show ?thesis .
  qed
qed

lemma download_no_upload:
  "S3Upload key \<notin> set (snd (downloadAuthenticatedMp3 cfg attempts r))"
proof (induction cfg attempts r rule: downloadAuthenticatedMp3.induct)
  case (1 cfg attempts r)
  show ?case
  proof (cases "tryDownload (attempts r)")
    case (Inr sz)
    then show ?thesis by (simp add: downloadAuthenticatedMp3.simps [of cfg attempts r])
  next
    case (Inl error)
    show ?thesis
    proof (cases "int r < int (retryAttempts cfg) - 1")
      case True
      obtain res effs where rec: "downloadAuthenticatedMp3 cfg attempts (Suc r) = (res, effs)"
        by (cases "downloadAuthenticatedMp3 cfg attempts (Suc r)") blast
      with 1 [OF Inl True] have "S3Upload key \<notin> set effs"
        by simp
      then show ?thesis
        by (simp add: downloadAuthenticatedMp3.simps [of cfg attempts r] Inl True rec)
    next
      case False
      then show ?thesis by (simp add: downloadAuthenticatedMp3.simps [of cfg attempts r] Inl)
    qed
  qed
qed

subsection \<open>Per-record processing\<close>

lemma processSingleMp3_counts:
  "uploadedCount (snd (processSingleMp3 cfg w mp3 index u)) +
   failedCount (snd (processSingleMp3 cfg w mp3 index u)) = uploadedCount u + failedCount u + 1"
  by (simp add: processSingleMp3_def Let_def split: prod.splits sum.splits)

lemma processSingleMp3_log_length:
  "length (uploadLog (snd (processSingleMp3 cfg w mp3 index u))) = length (uploadLog u) + 1"
  by (simp add: processSingleMp3_def Let_def split: prod.splits sum.splits)

text \<open>The loop handles every record, whatever fails: one log entry per record.\<close>

lemma processFrom_log_length:
  "length (uploadLog (processFrom cfg w mp3s i u)) = length (uploadLog u) + length mp3s"
  by (induction mp3s arbitrary: i u) (simp_all add: Let_def processSingleMp3_log_length)

lemma processFrom_counts:
  "uploadedCount (processFrom cfg w mp3s i u) + failedCount (processFrom cfg w mp3s i u) =
   uploadedCount u + failedCount u + length mp3s"
  by (induction mp3s arbitrary: i u) (simp_all add: Let_def processSingleMp3_counts)

lemma tryProcess_download_fails:
  assumes "downloadAuthenticatedMp3 cfg (attemptsOf w index) 0 = (Inl e, effs)"
  shows "tryProcess cfg w mp3 index = (Inl e, effs)"
  using assms by (simp add: tryProcess_def)

lemma tryProcess_untitled:
  assumes "title (metadata mp3) = None"
  shows "isl (fst (tryProcess cfg w mp3 index)) \<and>
         snd (tryProcess cfg w mp3 index) =
         snd (downloadAuthenticatedMp3 cfg (attemptsOf w index) 0)"
  using assms by (simp add: tryProcess_def generateS3Key_def split: prod.splits sum.splits)

lemma waitForFile_size:
  "waitForFile files i left = Inr (Some sz) \<Longrightarrow> sz > 1000"
  by (induction left arbitrary: i) (auto split: poll.splits if_splits)

lemma tryDownload_size: "tryDownload a = Inr sz \<Longrightarrow> sz > 1000"
  by (auto simp: tryDownload_def Let_def downloadTimeout_def
      split: option.splits sum.splits if_splits dest: waitForFile_size)

lemma download_size:
  "fst (downloadAuthenticatedMp3 cfg attempts r) = Inr sz \<Longrightarrow> sz > 1000"
proof (induction cfg attempts r rule: downloadAuthenticatedMp3.induct)
  case (1 cfg attempts r)
  show ?case
  proof (cases "tryDownload (attempts r)")
    case (Inr sz')
    with 1(2) have "sz' = sz"
      by (simp add: downloadAuthenticatedMp3.simps [of cfg attempts r])
    with Inr show ?thesis by (simp add: tryDownload_size)
  next
    case (Inl error)
    show ?thesis
    proof (cases "int r < int (retryAttempts cfg) - 1")
      case True
      from 1(2) have "fst (downloadAuthenticatedMp3 cfg attempts (r + 1)) = Inr sz"
        by (simp add: downloadAuthenticatedMp3.simps [of cfg attempts r] Inl True
            split: prod.splits)
      from 1(1) [OF Inl True this] show ?thesis .
    next
      case False
      with 1(2) show ?thesis
        by (simp add: downloadAuthenticatedMp3.simps [of cfg attempts r] Inl)
    qed
  qed
qed

lemma processSingleMp3_success:
  assumes d: "fst (downloadAuthenticatedMp3 cfg (attemptsOf w index) 0) = Inr sz"
    and k: "generateS3Key mp3 index = Inr key"
    and s: "s3upload w key (uploadHeaders (metadata mp3) (videoUrl mp3)) = Inr loc"
  shows "\<exists>effs. processSingleMp3 cfg w mp3 index u =
           (Inr (createRAGMetadata mp3 \<lparr> Location = loc, Key = key \<rparr> index),
            u \<lparr> ragMetadata := ragMetadata u @
                    [createRAGMetadata mp3 \<lparr> Location = loc, Key = key \<rparr> index],
                uploadLog := uploadLog u @
                    [LogSuccess index (title (metadata mp3)) key loc sz],
                uploadedCount := uploadedCount u + 1,
                effects := effects u @ effs \<rparr>)"
proof -
  obtain effs where dl: "downloadAuthenticatedMp3 cfg (attemptsOf w index) 0 = (Inr sz, effs)"
    using d by (cases "downloadAuthenticatedMp3 cfg (attemptsOf w index) 0") simp
  from download_size [OF d] have big: "\<not> sz < 1000" by simp
  have "tryProcess cfg w mp3 index =
        (Inr (sz, key, \<lparr> Location = loc, Key = key \<rparr>), effs @ [S3Upload key])"
    by (simp add: tryProcess_def dl big k uploadToS3_def s)
  then show ?thesis
    by (intro exI [of _ "effs @ [S3Upload key]"]) (simp add: processSingleMp3_def Let_def)
qed

lemma processSingleMp3_retrieval_fails:
  assumes "\<forall>k \<le> retryAttempts cfg - 1. tryDownload (attemptsOf w index k) = Inl (err k)"
  shows "processSingleMp3 cfg w mp3 index u =
           (Inl (err (retryAttempts cfg - 1)),
            u \<lparr> uploadLog := uploadLog u @
                    [LogFailed index (title (metadata mp3)) (downloadUrl mp3) (videoUrl mp3)
                       (err (retryAttempts cfg - 1))],
                failedCount := failedCount u + 1,
                effects := effects u @
                    concat (map (\<lambda>k. [DownloadAttempt k, RetryDelay (retryDelay cfg)])
                              [0 ..< retryAttempts cfg - 1]) @
                    [DownloadAttempt (retryAttempts cfg - 1)] \<rparr>)"
proof -
  have "downloadAuthenticatedMp3 cfg (attemptsOf w index) 0 =
         (Inl (err (retryAttempts cfg - 1)),
          concat (map (\<lambda>k. [DownloadAttempt k, RetryDelay (retryDelay cfg)])
                    [0 ..< retryAttempts cfg - 1]) @
          [DownloadAttempt (retryAttempts cfg - 1)])"
    using assms by (intro download_all_fail) simp_all
  then have "tryProcess cfg w mp3 index =
         (Inl (err (retryAttempts cfg - 1)),
          concat (map (\<lambda>k. [DownloadAttempt k, RetryDelay (retryDelay cfg)])
                    [0 ..< retryAttempts cfg - 1]) @
          [DownloadAttempt (retryAttempts cfg - 1)])"
    by (rule tryProcess_download_fails)
  then show ?thesis
    by (simp add: processSingleMp3_def)
qed

text \<open>
  C6. When every attempt for a record fails, \<open>downloadAuthenticatedMp3\<close> runs the whole
  sequence \<open>retryAttempts\<close> times (attempts \<open>0\<close> to \<open>retryAttempts - 1\<close>), waits
  \<open>retryDelay\<close> milliseconds between two attempts, and then throws the error of the last
  attempt; it throws only when all these attempts failed. \<open>processSingleMp3\<close> logs that
  error as the record's failure, and the loop goes on with the records that follow: each
  of them gets its log entry.
\<close>

theorem downloadAuthenticatedMp3_retries:
  assumes "\<forall>k \<le> retryAttempts cfg - 1. tryDownload (attemptsOf w (i + 1) k) = Inl (err k)"
  shows "downloadAuthenticatedMp3 cfg (attemptsOf w (i + 1)) 0 =
           (Inl (err (retryAttempts cfg - 1)),
            concat (map (\<lambda>k. [DownloadAttempt k, RetryDelay (retryDelay cfg)])
                      [0 ..< retryAttempts cfg - 1]) @
            [DownloadAttempt (retryAttempts cfg - 1)]) \<and>
         (\<forall>attempts e k. fst (downloadAuthenticatedMp3 cfg attempts 0) = Inl e \<and>
              k \<le> retryAttempts cfg - 1 \<longrightarrow> isl (tryDownload (attempts k))) \<and>
         fst (processSingleMp3 cfg w mp3 (i + 1) u) = Inl (err (retryAttempts cfg - 1)) \<and>
         uploadLog (snd (processSingleMp3 cfg w mp3 (i + 1) u)) =
           uploadLog u @
           [LogFailed (i + 1) (title (metadata mp3)) (downloadUrl mp3) (videoUrl mp3)
              (err (retryAttempts cfg - 1))] \<and>
         processFrom cfg w (mp3 # rest) i u =
           processFrom cfg w rest (i + 1)
             (if rest \<noteq> []
              then (snd (processSingleMp3 cfg w mp3 (i + 1) u))
                     \<lparr> effects := effects (snd (processSingleMp3 cfg w mp3 (i + 1) u)) @
                                   [Pause 2000] \<rparr>
              else snd (processSingleMp3 cfg w mp3 (i + 1) u)) \<and>
         length (uploadLog (processFrom cfg w (mp3 # rest) i u)) =
           length (uploadLog u) + 1 + length rest"
proof -
  have 1: "downloadAuthenticatedMp3 cfg (attemptsOf w (i + 1)) 0 =
           (Inl (err (retryAttempts cfg - 1)),
            concat (map (\<lambda>k. [DownloadAttempt k, RetryDelay (retryDelay cfg)])
                      [0 ..< retryAttempts cfg - 1]) @
            [DownloadAttempt (retryAttempts cfg - 1)])"
    using assms by (intro download_all_fail) simp_all
  have 2: "\<forall>attempts e k. fst (downloadAuthenticatedMp3 cfg attempts 0) = Inl e \<and>
              k \<le> retryAttempts cfg - 1 \<longrightarrow> isl (tryDownload (attempts k))"
    using download_error_only_after_all_fail by blast
  note ps = processSingleMp3_retrieval_fails [OF assms, of mp3 u]
  have 3: "fst (processSingleMp3 cfg w mp3 (i + 1) u) = Inl (err (retryAttempts cfg - 1))"
    unfolding ps by simp
  have 4: "uploadLog (snd (processSingleMp3 cfg w mp3 (i + 1) u)) =
           uploadLog u @
           [LogFailed (i + 1) (title (metadata mp3)) (downloadUrl mp3) (videoUrl mp3)
              (err (retryAttempts cfg - 1))]"
    unfolding ps by simp
  have 5: "processFrom cfg w (mp3 # rest) i u =
           processFrom cfg w rest (i + 1)
             (if rest \<noteq> []
              then (snd (processSingleMp3 cfg w mp3 (i + 1) u))
                     \<lparr> effects := effects (snd (processSingleMp3 cfg w mp3 (i + 1) u)) @
                                   [Pause 2000] \<rparr>
              else snd (processSingleMp3 cfg w mp3 (i + 1) u))"
    by (simp add: Let_def)
  have 6: "length (uploadLog (processFrom cfg w (mp3 # rest) i u)) =
           length (uploadLog u) + 1 + length rest"
    using processFrom_log_length [of cfg w "mp3 # rest" i u] by simp
  from 1 2 3 4 5 6 show ?thesis by blast
qed

theorem downloadAuthenticatedMp3_retries_witness:
  "tryDownload (attemptsOf secondFailsWorld 2 0) = Inl downloadTimeout \<and>
   tryDownload (attemptsOf secondFailsWorld 2 1) = Inl downloadTimeout \<and>
   tryDownload (attemptsOf secondFailsWorld 2 2) = Inl downloadTimeout \<and>
   downloadAuthenticatedMp3 defaultConfig (attemptsOf secondFailsWorld 2) 0 =
     (Inl downloadTimeout,
      [DownloadAttempt 0, RetryDelay 3000, DownloadAttempt 1, RetryDelay 3000, DownloadAttempt 2]) \<and>
   length (uploadLog (processFrom defaultConfig secondFailsWorld (tl threeRecords) 1 newUploader)) = 2"
proof -
  have two: "(1::nat) + 1 = 2" by simp
  have h2: "\<forall>k \<le> retryAttempts defaultConfig - 1.
      tryDownload (attemptsOf secondFailsWorld 2 k) = Inl downloadTimeout"
    by (simp add: secondFailsWorld_def tryDownload_small)
  then have h: "\<forall>k \<le> retryAttempts defaultConfig - 1.
      tryDownload (attemptsOf secondFailsWorld (1 + 1) k) = Inl downloadTimeout"
    unfolding two .
  have u: "concat (map (\<lambda>k. [DownloadAttempt k, RetryDelay (retryDelay defaultConfig)])
                      [0 ..< retryAttempts defaultConfig - 1]) @
            [DownloadAttempt (retryAttempts defaultConfig - 1)] =
           [DownloadAttempt 0, RetryDelay 3000, DownloadAttempt 1, RetryDelay 3000,
            DownloadAttempt 2]"
    by (simp add: defaultConfig_def upt_conv_Cons)
  have t: "tl threeRecords = [bereishitRecord tanyaGordonUrl, bereishitRecord gordonUrl]"
    by (simp add: threeRecords_def)
  have c: "length (uploadLog newUploader) + 1 + length [bereishitRecord gordonUrl] = 2"
    by (simp add: newUploader_def)
  note r = downloadAuthenticatedMp3_retries
         [OF h, of "bereishitRecord tanyaGordonUrl" newUploader "[bereishitRecord gordonUrl]"]
  have a: "downloadAuthenticatedMp3 defaultConfig (attemptsOf secondFailsWorld 2) 0 =
          (Inl downloadTimeout,
           [DownloadAttempt 0, RetryDelay 3000, DownloadAttempt 1, RetryDelay 3000,
            DownloadAttempt 2])"
    using r [THEN conjunct1] unfolding u two .
  have b: "length (uploadLog (processFrom defaultConfig secondFailsWorld
             (tl threeRecords) 1 newUploader)) = 2"
    using r [THEN conjunct2, THEN conjunct2, THEN conjunct2, THEN conjunct2, THEN conjunct2]
    unfolding t c .
  from h2 have "tryDownload (attemptsOf secondFailsWorld 2 0) = Inl downloadTimeout"
    and "tryDownload (attemptsOf secondFailsWorld 2 1) = Inl downloadTimeout"
    and "tryDownload (attemptsOf secondFailsWorld 2 2) = Inl downloadTimeout"
    by (simp_all add: defaultConfig_def)
  with a b show ?thesis by blast
qed

subsection \<open>The run summary\<close>

lemma divide_2_3: "divide_num 2 3 = Num 6004799503160661 (- 53)"
  by (simp add: divide_num_def nearestDouble_def roundHalfEven_def bitLength.simps Let_def)

lemma times_100: "times_num (Num 6004799503160661 (- 53)) 100 = Num 4691249611844266 (- 46)"
  by (simp add: times_num_def nearestDouble_def roundHalfEven_def bitLength.simps Let_def)

lemma decimalString_6667: "decimalString 6667 = js ''6667''"
  by (simp add: decimalString.simps js_def)

lemma toFixed2_66: "toFixed2 (Num 4691249611844266 (- 46)) = js ''66.67''"
  by (simp add: toFixed2_def padStart_def decimalString_6667 js_def)

lemma successRate_2_of_3:
  "toFixed2 (times_num (divide_num 2 3) 100) @ js ''%'' = js ''66.67%''"
  unfolding divide_2_3 times_100 toFixed2_66 by (simp add: js_def)

lemma saveRAGMetadata_2_1:
  assumes "uploadedCount u = 2" and "failedCount u = 1"
  shows "saveRAGMetadata u =
         \<lparr> totalProcessed = 3, successful = 2, failed = 1, successRate = js ''66.67%'' \<rparr>"
proof -
  have "uploadedCount u + failedCount u = 3"
    using assms by simp
  then show ?thesis
    unfolding saveRAGMetadata_def by (simp only: assms successRate_2_of_3)
qed

text \<open>
  C4. In a batch of three records where every retrieval attempt for record 2 fails while
  records 1 and 3 download, get a key and are accepted by the object store, the run
  returns normally; records 1 and 3 have their RAG entries and success log entries, record
  2 has a failure entry between them, and the summary reads \<open>totalProcessed = 3\<close>,
  \<open>successful = 2\<close>, \<open>failed = 1\<close>, \<open>successRate = "66.67%"\<close>.
\<close>

theorem partial_failure_isolation:
  assumes "login w = None" and "closeBrowser w = None"
    and d1: "fst (downloadAuthenticatedMp3 cfg (attemptsOf w 1) 0) = Inr sz1"
    and k1: "generateS3Key m1 1 = Inr key1"
    and s1: "s3upload w key1 (uploadHeaders (metadata m1) (videoUrl m1)) = Inr loc1"
    and f2: "\<forall>k \<le> retryAttempts cfg - 1. tryDownload (attemptsOf w 2 k) = Inl (err k)"
    and d3: "fst (downloadAuthenticatedMp3 cfg (attemptsOf w 3) 0) = Inr sz3"
    and k3: "generateS3Key m3 3 = Inr key3"
    and s3: "s3upload w key3 (uploadHeaders (metadata m3) (videoUrl m3)) = Inr loc3"
  shows "\<exists>u. processAllMp3s cfg w [m1, m2, m3] newUploader = Inr u \<and>
           ragMetadata u =
             [createRAGMetadata m1 \<lparr> Location = loc1, Key = key1 \<rparr> 1,
              createRAGMetadata m3 \<lparr> Location = loc3, Key = key3 \<rparr> 3] \<and>
           uploadLog u =
             [LogSuccess 1 (title (metadata m1)) key1 loc1 sz1,
              LogFailed 2 (title (metadata m2)) (downloadUrl m2) (videoUrl m2)
                (err (retryAttempts cfg - 1)),
              LogSuccess 3 (title (metadata m3)) key3 loc3 sz3] \<and>
           saveRAGMetadata u =
             \<lparr> totalProcessed = 3, successful = 2, failed = 1, successRate = js ''66.67%'' \<rparr>"
proof -
  define p1 where "p1 = snd (processSingleMp3 cfg w m1 1 newUploader)"
  define q1 where "q1 = p1 \<lparr> effects := effects p1 @ [Pause 2000] \<rparr>"
  define p2 where "p2 = snd (processSingleMp3 cfg w m2 2 q1)"
  define q2 where "q2 = p2 \<lparr> effects := effects p2 @ [Pause 2000] \<rparr>"
  define p3 where "p3 = snd (processSingleMp3 cfg w m3 3 q2)"
  have run: "processFrom cfg w [m1, m2, m3] 0 newUploader = p3"
    by (simp add: Let_def p1_def q1_def p2_def q2_def p3_def numeral_2_eq_2 numeral_3_eq_3)
  from processSingleMp3_success [OF d1 k1 s1, of newUploader]
  have 1: "ragMetadata p1 = [createRAGMetadata m1 \<lparr> Location = loc1, Key = key1 \<rparr> 1]"
      "uploadLog p1 = [LogSuccess 1 (title (metadata m1)) key1 loc1 sz1]"
      "uploadedCount p1 = 1" "failedCount p1 = 0"
    unfolding p1_def by (auto simp: newUploader_def)
  from processSingleMp3_retrieval_fails [OF f2, of m2 q1]
  have 2: "ragMetadata p2 = ragMetadata p1"
      "uploadLog p2 = uploadLog p1 @
         [LogFailed 2 (title (metadata m2)) (downloadUrl m2) (videoUrl m2)
            (err (retryAttempts cfg - 1))]"
      "uploadedCount p2 = 1" "failedCount p2 = 1"
    unfolding p2_def by (simp_all add: q1_def 1)
  from processSingleMp3_success [OF d3 k3 s3, of q2]
  have 3: "ragMetadata p3 = ragMetadata p2 @
         [createRAGMetadata m3 \<lparr> Location = loc3, Key = key3 \<rparr> 3]"
      "uploadLog p3 = uploadLog p2 @ [LogSuccess 3 (title (metadata m3)) key3 loc3 sz3]"
      "uploadedCount p3 = 2" "failedCount p3 = 1"
    unfolding p3_def by (auto simp: q2_def 2)
  have all: "processAllMp3s cfg w [m1, m2, m3] newUploader = Inr p3"
    unfolding processAllMp3s_def run using assms(1,2) by simp
  have summary: "saveRAGMetadata p3 =
      \<lparr> totalProcessed = 3, successful = 2, failed = 1, successRate = js ''66.67%'' \<rparr>"
    using 3(3,4) by (rule saveRAGMetadata_2_1)
  show ?thesis
    by (intro exI [of _ p3]) (simp add: all summary 1 2 3)
qed

lemma download_good_first_try:
  assumes "tryDownload (attempts 0) = Inr sz"
  shows "downloadAuthenticatedMp3 cfg attempts 0 = (Inr sz, [DownloadAttempt 0])"
  using assms by (simp add: downloadAuthenticatedMp3.simps [of cfg attempts 0])

theorem partial_failure_isolation_witness:
  "fst (downloadAuthenticatedMp3 defaultConfig (attemptsOf secondFailsWorld 1) 0) = Inr 5000000 \<and>
   tryDownload (attemptsOf secondFailsWorld 2 0) = Inl downloadTimeout \<and>
   tryDownload (attemptsOf secondFailsWorld 2 1) = Inl downloadTimeout \<and>
   tryDownload (attemptsOf secondFailsWorld 2 2) = Inl downloadTimeout \<and>
   fst (downloadAuthenticatedMp3 defaultConfig (attemptsOf secondFailsWorld 3) 0) = Inr 5000000 \<and>
   (\<exists>u. processAllMp3s defaultConfig secondFailsWorld threeRecords newUploader = Inr u \<and>
        length (ragMetadata u) = 2 \<and>
        saveRAGMetadata u =
          \<lparr> totalProcessed = 3, successful = 2, failed = 1, successRate = js ''66.67%'' \<rparr>)"
proof -
  let ?m = "bereishitRecord gordonUrl"
  let ?m2 = "bereishitRecord tanyaGordonUrl"
  let ?key = "\<lambda>i. contentTypeOf (videoUrl ?m) @ js ''/'' @
                  cleanTitle (js ''Rabbi Gordon: Bereishit!'') @ js ''/'' @
                  aidOf (videoUrl ?m) @ js ''/'' @ paddedIndex i @ js ''-'' @
                  cleanFilename (js ''Rabbi Gordon: Bereishit!'') @ js ''.mp3''"
  have l: "login secondFailsWorld = None" and c: "closeBrowser secondFailsWorld = None"
    by (simp_all add: secondFailsWorld_def)
  have g1: "tryDownload (attemptsOf secondFailsWorld 1 0) = Inr 5000000"
    and g3: "tryDownload (attemptsOf secondFailsWorld 3 0) = Inr 5000000"
    by (simp_all add: secondFailsWorld_def tryDownload_good)
  have d1: "fst (downloadAuthenticatedMp3 defaultConfig (attemptsOf secondFailsWorld 1) 0) =
            Inr 5000000"
    unfolding download_good_first_try [of "attemptsOf secondFailsWorld 1", OF g1] by simp
  have d3: "fst (downloadAuthenticatedMp3 defaultConfig (attemptsOf secondFailsWorld 3) 0) =
            Inr 5000000"
    unfolding download_good_first_try [of "attemptsOf secondFailsWorld 3", OF g3] by simp
  have f2: "\<forall>k \<le> retryAttempts defaultConfig - 1.
      tryDownload (attemptsOf secondFailsWorld 2 k) = Inl downloadTimeout"
    by (simp add: secondFailsWorld_def tryDownload_small)
  have t: "title (metadata ?m) = Some (js ''Rabbi Gordon: Bereishit!'')"
    by (simp add: bereishitRecord_def)
  have k1: "generateS3Key ?m 1 = Inr (?key 1)" and k3: "generateS3Key ?m 3 = Inr (?key 3)"
    by (rule generateS3Key_format [OF t])+
  have s: "\<And>key headers. s3upload secondFailsWorld key headers = Inr (storeLocation key)"
    by (simp add: secondFailsWorld_def)
  from partial_failure_isolation [OF l c d1 k1 s f2 d3 k3 s, of ?m2]
  obtain u where u: "processAllMp3s defaultConfig secondFailsWorld [?m, ?m2, ?m] newUploader = Inr u"
    and r: "ragMetadata u =
             [createRAGMetadata ?m \<lparr> Location = storeLocation (?key 1), Key = ?key 1 \<rparr> 1,
              createRAGMetadata ?m \<lparr> Location = storeLocation (?key 3), Key = ?key 3 \<rparr> 3]"
    and sm: "saveRAGMetadata u =
             \<lparr> totalProcessed = 3, successful = 2, failed = 1, successRate = js ''66.67%'' \<rparr>"
    by blast
  from r have "length (ragMetadata u) = 2" by simp
  with u sm have "\<exists>u. processAllMp3s defaultConfig secondFailsWorld threeRecords newUploader = Inr u \<and>
        length (ragMetadata u) = 2 \<and>
        saveRAGMetadata u =
          \<lparr> totalProcessed = 3, successful = 2, failed = 1, successRate = js ''66.67%'' \<rparr>"
    unfolding threeRecords_def by blast
  moreover from f2 have "tryDownload (attemptsOf secondFailsWorld 2 0) = Inl downloadTimeout"
    and "tryDownload (attemptsOf secondFailsWorld 2 1) = Inl downloadTimeout"
    and "tryDownload (attemptsOf secondFailsWorld 2 2) = Inl downloadTimeout"
    by (simp_all add: defaultConfig_def)
  ultimately show ?thesis using d1 d3 by blast
qed

text \<open>
  C10. A record without a title makes \<open>generateS3Key\<close> throw a TypeError, so processing
  that record fails (it is logged as failed and counted in \<open>failedCount\<close>) and no upload
  of it ever reaches the object store.
\<close>

theorem generateS3Key_untitled_throws:
  assumes "title (metadata mp3) = None"
  shows "generateS3Key mp3 index = Inl TypeError \<and>
         isl (fst (processSingleMp3 cfg w mp3 index u)) \<and>
         failedCount (snd (processSingleMp3 cfg w mp3 index u)) = failedCount u + 1 \<and>
         uploadedCount (snd (processSingleMp3 cfg w mp3 index u)) = uploadedCount u \<and>
         (\<forall>key. S3Upload key \<in> set (effects (snd (processSingleMp3 cfg w mp3 index u))) \<longrightarrow>
                S3Upload key \<in> set (effects u))"
proof -
  have k: "generateS3Key mp3 index = Inl TypeError"
    using assms by (simp add: generateS3Key_def)
  obtain r effs where tp: "tryProcess cfg w mp3 index = (r, effs)"
    by (cases "tryProcess cfg w mp3 index") blast
  with tryProcess_untitled [OF assms, of cfg w index]
  have "isl r" and effs: "effs = snd (downloadAuthenticatedMp3 cfg (attemptsOf w index) 0)"
    by simp_all
  then obtain e where r: "r = Inl e" by (cases r) simp_all
  have ps: "processSingleMp3 cfg w mp3 index u =
        (Inl e,
         u \<lparr> uploadLog := uploadLog u @
               [LogFailed index (title (metadata mp3)) (downloadUrl mp3) (videoUrl mp3) e],
             failedCount := failedCount u + 1,
             effects := effects u @ effs \<rparr>)"
    by (simp add: processSingleMp3_def tp r)
  have "\<forall>key. S3Upload key \<notin> set effs"
    unfolding effs by (simp add: download_no_upload)
  with k ps show ?thesis by simp
qed

theorem generateS3Key_untitled_throws_witness:
  "title (metadata untitledRecord) = None \<and>
   generateS3Key untitledRecord 1 = Inl TypeError \<and>
   fst (processSingleMp3 defaultConfig goodWorld untitledRecord 1 newUploader) = Inl TypeError \<and>
   failedCount (snd (processSingleMp3 defaultConfig goodWorld untitledRecord 1 newUploader)) = 1"
proof -
  have t: "title (metadata untitledRecord) = None"
    by (simp add: untitledRecord_def)
  have d: "downloadAuthenticatedMp3 defaultConfig (attemptsOf goodWorld 1) 0 =
           (Inr 5000000, [DownloadAttempt 0])"
    by (simp add: downloadAuthenticatedMp3.simps [of _ _ 0] goodWorld_def tryDownload_good)
  have "tryProcess defaultConfig goodWorld untitledRecord 1 = (Inl TypeError, [DownloadAttempt 0])"
    unfolding tryProcess_def d by (simp add: generateS3Key_def t)
  then have f: "fst (processSingleMp3 defaultConfig goodWorld untitledRecord 1 newUploader) =
                Inl TypeError"
    unfolding processSingleMp3_def by simp
  from generateS3Key_untitled_throws [OF t, of 1 defaultConfig goodWorld newUploader] t f
  show ?thesis by (simp add: newUploader_def)
qed

subsection \<open>CAPTCHA detection\<close>

lemma activeCaptchaElement_iff:
  "activeCaptchaElement p selectors \<longleftrightarrow>
   (\<exists>selector \<in> set selectors. \<exists>el. querySelector p selector = Found el \<and> offsetParent el)"
  by (induction selectors) (auto split: driver.splits)

text \<open>
  What the detector's own test amounts to: when no element found by the challenge selectors
  has an \<open>offsetParent\<close>, and neither the title or URL check nor the body text
  check fires, \<open>checkForCaptcha\<close> returns false. A widget under \<open>display: none\<close>
  is such an element.
\<close>

lemma checkForCaptcha_hidden_element:
  assumes "\<forall>selector \<in> set activeCaptchaSelectors.
             \<forall>el. querySelector p selector = Found el \<longrightarrow> \<not> offsetParent el"
    and "\<not> challengePage toLowerCase p"
    and "\<not> challengeText toLowerCase p"
  shows "checkForCaptcha toLowerCase p = False"
proof -
  from assms(1) have "\<not> activeCaptchaElement p activeCaptchaSelectors"
    unfolding activeCaptchaElement_iff by blast
  with assms(2,3) show ?thesis
    by (simp add: checkForCaptcha_def)
qed

lemma dormant_query:
  "querySelector dormantWidgetPage selector =
     (if selector = ''div[class*=\"g-recaptcha\"]:not([style*=\"display: none\"])''
      then Found \<lparr> href = None, titleAttr = None, innerText = Some [], offsetParent = False, box = None \<rparr>
      else Null)"
  by (simp add: querySelector_def dormantWidgetPage_def)

lemma dormant_widget_not_detected:
  "querySelector dormantWidgetPage ''div[class*=\"g-recaptcha\"]:not([style*=\"display: none\"])'' =
     Found \<lparr> href = None, titleAttr = None, innerText = Some [], offsetParent = False, box = None \<rparr> \<and>
   \<not> challengePage toLowerCaseAscii dormantWidgetPage \<and>
   \<not> challengeText toLowerCaseAscii dormantWidgetPage \<and>
   checkForCaptcha toLowerCaseAscii dormantWidgetPage = False"
proof -
  have q: "querySelector dormantWidgetPage ''div[class*=\"g-recaptcha\"]:not([style*=\"display: none\"])'' =
     Found \<lparr> href = None, titleAttr = None, innerText = Some [], offsetParent = False, box = None \<rparr>"
    by (simp add: dormant_query)
  have h: "\<forall>selector \<in> set activeCaptchaSelectors.
             \<forall>el. querySelector dormantWidgetPage selector = Found el \<longrightarrow> \<not> offsetParent el"
    by (auto simp: dormant_query split: if_splits)
  have t: "pageTitle dormantWidgetPage = Some (js ''Bereishit'')"
    and u: "pageUrl dormantWidgetPage = gordonUrl"
    and b: "bodyInnerText dormantWidgetPage = Some (js ''Rabbi Gordon teaches Bereishit'')"
    by (simp_all add: dormantWidgetPage_def blankPage_def)
  have cp: "\<not> challengePage toLowerCaseAscii dormantWidgetPage"
    unfolding challengePage_def t u captchaIndicators_def
    by (simp add: toLowerCaseAscii_def gordonUrl_def js_def)
  have ct: "\<not> challengeText toLowerCaseAscii dormantWidgetPage"
    unfolding challengeText_def b challengePhrases_def Let_def
    by (simp add: toLowerCaseAscii_def js_def)
  from checkForCaptcha_hidden_element [OF h cp ct] q cp ct show ?thesis by blast
qed

text \<open>
  C7. The detector takes \<open>offsetParent !== null\<close> for visibility, which is a weaker
  test than having a visible bounding box: a challenge element laid out with an empty box
  (a reCAPTCHA placeholder that is not rendered yet, 304 wide and 0 high) has an
  \<open>offsetParent\<close>. On a page where such an element is found by the second selector,
  with no challenge phrase in the title, the URL or the body text, \<open>checkForCaptcha\<close>
  returns true, where the claim asks for false.
\<close>

theorem checkForCaptcha_placeholder_detected:
  "querySelector placeholderWidgetPage
     ''div[class*=\"g-recaptcha\"]:not([style*=\"display: none\"])'' = Found placeholderWidget \<and>
   \<not> hasVisibleBox placeholderWidget \<and>
   \<not> challengePage toLowerCaseAscii placeholderWidgetPage \<and>
   \<not> challengeText toLowerCaseAscii placeholderWidgetPage \<and>
   checkForCaptcha toLowerCaseAscii placeholderWidgetPage = True"
proof -
  have q: "querySelector placeholderWidgetPage selector =
      (if selector = ''div[class*=\"g-recaptcha\"]:not([style*=\"display: none\"])''
       then Found placeholderWidget else Null)" for selector
    by (simp add: querySelector_def placeholderWidgetPage_def)
  have b: "\<not> hasVisibleBox placeholderWidget"
    by (simp add: hasVisibleBox_def placeholderWidget_def)
  have o: "offsetParent placeholderWidget"
    by (simp add: placeholderWidget_def)
  have a: "activeCaptchaElement placeholderWidgetPage activeCaptchaSelectors"
    by (simp add: activeCaptchaSelectors_def q o)
  have t: "pageTitle placeholderWidgetPage = Some (js ''Bereishit'')"
    and u: "pageUrl placeholderWidgetPage = gordonUrl"
    and x: "bodyInnerText placeholderWidgetPage = Some (js ''Rabbi Gordon teaches Bereishit'')"
    by (simp_all add: placeholderWidgetPage_def blankPage_def)
  have cp: "\<not> challengePage toLowerCaseAscii placeholderWidgetPage"
    unfolding challengePage_def t u captchaIndicators_def
    by (simp add: toLowerCaseAscii_def gordonUrl_def js_def)
  have ct: "\<not> challengeText toLowerCaseAscii placeholderWidgetPage"
    unfolding challengeText_def x challengePhrases_def Let_def
    by (simp add: toLowerCaseAscii_def js_def)
  from a have "checkForCaptcha toLowerCaseAscii placeholderWidgetPage = True"
    by (simp add: checkForCaptcha_def)
  with q b cp ct show ?thesis by simp
qed

subsection \<open>The ledger and the traversal\<close>

lemma grows_refl: "grows st st"
  by (simp add: grows_def)

lemma grows_trans: "grows a b \<Longrightarrow> grows b c \<Longrightarrow> grows a c"
  by (auto simp: grows_def)

lemma grows_visit: "url \<notin> visitedUrls st \<Longrightarrow> grows st (visit url st)"
  by (auto simp: grows_def visit_def ledgerInv_def)

lemma grows_scrapedData: "grows st (st \<lparr> scrapedData := d \<rparr>)"
  by (simp add: grows_def ledgerInv_def)

lemma visitVideos_grows:
  assumes "\<And>url st st'. extractMp3FromVideoPage fuel w url st = Some st' \<Longrightarrow> grows st st'"
  shows "visitVideos fuel w urls st = Some st' \<Longrightarrow> grows st st'"
proof (induction urls arbitrary: st)
  case Nil
  then show ?case by (simp add: grows_refl)
next
  case (Cons url urls)
  from Cons.prems obtain st1 where 1: "extractMp3FromVideoPage fuel w url st = Some st1"
    and 2: "visitVideos fuel w urls st1 = Some st'"
    by (auto split: option.splits)
  from assms [OF 1] Cons.IH [OF 2] show ?case by (rule grows_trans)
qed

lemma extractMp3FromVideoPage_grows:
  "extractMp3FromVideoPage fuel w url st = Some st' \<Longrightarrow> grows st st'"
proof (induction fuel arbitrary: url st st')
  case 0
  then show ?case by simp
next
  case (Suc fuel)
  note vv = visitVideos_grows [of fuel w, OF Suc.IH]
  show ?case
  proof (cases "url \<in> visitedUrls st")
    case True
    with Suc.prems show ?thesis by (simp add: grows_refl)
  next
    case False
    then have g: "grows st (visit url st)" by (rule grows_visit)
    from Suc.prems False have "grows (visit url st) st'"
      by (auto simp: Let_def grows_refl grows_scrapedData
          split: option.splits intro: vv)
    with g show ?thesis by (rule grows_trans)
  qed
qed


lemma extractVideoLinks_grows:
  "extractVideoLinks fuel w p st = Some st' \<Longrightarrow> grows st st'"
  by (auto simp: extractVideoLinks_def grows_refl split: option.splits
      intro: visitVideos_grows extractMp3FromVideoPage_grows)

lemma scrapeAll_grows:
  assumes "\<And>url depth st st'.
             scrapeRecursively fuel maxDepth lower w url depth st = Some st' \<Longrightarrow> grows st st'"
  shows "scrapeAll fuel maxDepth lower w urls depth st = Some st' \<Longrightarrow> grows st st'"
proof (induction urls arbitrary: st)
  case Nil
  then show ?case by (simp add: grows_refl)
next
  case (Cons url urls)
  from Cons.prems obtain st1
    where 1: "scrapeRecursively fuel maxDepth lower w url depth st = Some st1"
      and 2: "scrapeAll fuel maxDepth lower w urls depth st1 = Some st'"
    by (auto split: option.splits)
  from assms [OF 1] Cons.IH [OF 2] show ?case by (rule grows_trans)
qed

lemma scrapeRecursively_grows:
  "scrapeRecursively fuel maxDepth lower w url depth st = Some st' \<Longrightarrow> grows st st'"
proof (induction fuel arbitrary: url depth st st')
  case 0
  then show ?case by simp
next
  case (Suc fuel)
  note sa = scrapeAll_grows [of fuel maxDepth lower w, OF Suc.IH]
  show ?case
  proof (cases "url \<in> visitedUrls st \<or> depth > maxDepth")
    case True
    with Suc.prems show ?thesis by (simp add: grows_refl)
  next
    case False
    then have g: "grows st (visit url st)" by (simp add: grows_visit)
    from Suc.prems False have "grows (visit url st) st'"
      by (auto simp: Let_def grows_refl
          split: option.splits captchaOutcome.splits if_splits
          intro: sa extractVideoLinks_grows)
    with g show ?thesis by (rule grows_trans)
  qed
qed


lemma collectElements_subset:
  "collectElements p selectors = Some els \<Longrightarrow> el \<in> set els \<Longrightarrow>
   \<exists>selector \<in> set selectors. \<exists>xs. querySelectorAll p selector = Some xs \<and> el \<in> set xs"
  by (induction selectors arbitrary: els) (auto split: option.splits)

lemma resolveHrefs_subset:
  "resolveHrefs w els = Some urls \<Longrightarrow> u \<in> set urls \<Longrightarrow>
   \<exists>el \<in> set els. \<exists>h. href el = Some h \<and> resolveUrl w h = Some u"
  by (induction els arbitrary: urls) (auto split: option.splits if_splits)

lemma videoLinkUrls_pageLinks:
  assumes "videoLinkUrls w p = Some urls"
  shows "set urls \<subseteq> pageLinks w p"
proof
  fix u assume u: "u \<in> set urls"
  from assms obtain links where c: "collectElements p videoLinks = Some links"
    and r: "resolveHrefs w links = Some urls"
    by (auto simp: videoLinkUrls_def split: option.splits)
  from resolveHrefs_subset [OF r u] obtain el h
    where el: "el \<in> set links" and h: "href el = Some h" "resolveUrl w h = Some u" by blast
  from collectElements_subset [OF c el] obtain selector xs
    where "selector \<in> set videoLinks" "querySelectorAll p selector = Some xs" "el \<in> set xs"
    by blast
  with h show "u \<in> pageLinks w p"
    unfolding pageLinks_def by auto
qed

lemma viewAllUrls_pageLinks:
  assumes c: "collectElements p viewAllButtons = Some buttons"
    and r: "resolveHrefs w buttons = Some urls"
  shows "set urls \<subseteq> pageLinks w p"
proof
  fix u assume u: "u \<in> set urls"
  from resolveHrefs_subset [OF r u] obtain el h
    where el: "el \<in> set buttons" and h: "href el = Some h" "resolveUrl w h = Some u" by blast
  from collectElements_subset [OF c el] obtain selector xs
    where "selector \<in> set viewAllButtons" "querySelectorAll p selector = Some xs" "el \<in> set xs"
    by blast
  with h show "u \<in> pageLinks w p"
    unfolding pageLinks_def by auto
qed


lemma card_after_visit:
  assumes "finite U" "url \<in> U" "url \<notin> visitedUrls st" "card (U - visitedUrls st) < Suc fuel"
  shows "card (U - visitedUrls (visit url st)) < fuel"
proof -
  have "U - visitedUrls (visit url st) \<subset> U - visitedUrls st"
    using assms(2,3) by (auto simp: visit_def)
  then have "card (U - visitedUrls (visit url st)) < card (U - visitedUrls st)"
    using assms(1) by (intro psubset_card_mono) auto
  with assms(4) show ?thesis by simp
qed

lemma card_grows:
  assumes "finite U" "grows st st'" "card (U - visitedUrls st) < fuel"
  shows "card (U - visitedUrls st') < fuel"
proof -
  have "card (U - visitedUrls st') \<le> card (U - visitedUrls st)"
    using assms(1,2) by (intro card_mono) (auto simp: grows_def)
  with assms(3) show ?thesis by simp
qed

lemma visitVideos_returns:
  assumes fin: "finite U"
    and IH: "\<And>url st. url \<in> U \<Longrightarrow> card (U - visitedUrls st) < fuel \<Longrightarrow>
                \<exists>st'. extractMp3FromVideoPage fuel w url st = Some st'"
  shows "set urls \<subseteq> U \<Longrightarrow> card (U - visitedUrls st) < fuel \<Longrightarrow>
         \<exists>st'. visitVideos fuel w urls st = Some st'"
proof (induction urls arbitrary: st)
  case Nil
  then show ?case by simp
next
  case (Cons url urls)
  from Cons.prems IH [of url st] obtain st1
    where 1: "extractMp3FromVideoPage fuel w url st = Some st1" by auto
  from card_grows [OF fin extractMp3FromVideoPage_grows [OF 1] Cons.prems(2)]
  have "card (U - visitedUrls st1) < fuel" .
  with Cons.IH [of st1] Cons.prems(1) obtain st' where "visitVideos fuel w urls st1 = Some st'"
    by auto
  with 1 show ?case by simp
qed

lemma extractMp3FromVideoPage_returns:
  assumes fin: "finite U" and closed: "closedUnder w U"
  shows "url \<in> U \<Longrightarrow> card (U - visitedUrls st) < fuel \<Longrightarrow>
         \<exists>st'. extractMp3FromVideoPage fuel w url st = Some st'"
proof (induction fuel arbitrary: url st)
  case 0
  then show ?case by simp
next
  case (Suc fuel)
  have vv: "\<exists>st'. visitVideos fuel w urls st = Some st'"
    if "set urls \<subseteq> U" "card (U - visitedUrls st) < fuel" for urls st
    using fin Suc.IH that by (rule visitVideos_returns)
  show ?case
  proof (cases "url \<in> visitedUrls st")
    case True
    then show ?thesis by simp
  next
    case False
    let ?st1 = "visit url st"
    have c: "card (U - visitedUrls ?st1) < fuel"
      using fin Suc.prems(1) False Suc.prems(2) by (rule card_after_visit)
    show ?thesis
    proof (cases "goto w url")
      case None
      with False show ?thesis by (simp add: Let_def)
    next
      case (Some snapshots)
      show ?thesis
      proof (cases "findDownloadLink w (snapshots 0) downloadLinks")
        case (Some downloadLink)
        with False \<open>goto w url = Some snapshots\<close> show ?thesis by (simp add: Let_def)
      next
        case None
        show ?thesis
        proof (cases "videoLinkUrls w (snapshots 0)")
          case no: None
          with False \<open>goto w url = Some snapshots\<close> None show ?thesis by (simp add: Let_def)
        next
          case (Some urls)
          from videoLinkUrls_pageLinks [OF Some] closed Suc.prems(1) \<open>goto w url = Some snapshots\<close>
          have "set urls \<subseteq> U"
            unfolding closedUnder_def by blast
          then have "set (filter (\<lambda>fullUrl. fullUrl \<noteq> url \<and> fullUrl \<notin> visitedUrls ?st1) urls) \<subseteq> U"
            by auto
          from vv [OF this c] False \<open>goto w url = Some snapshots\<close> None Some
          show ?thesis by (simp add: Let_def)
        qed
      qed
    qed
  qed
qed


lemma extractVideoLinks_returns:
  assumes fin: "finite U" and closed: "closedUnder w U"
    and links: "pageLinks w p \<subseteq> U" and c: "card (U - visitedUrls st) < fuel"
  shows "\<exists>st'. extractVideoLinks fuel w p st = Some st'"
proof (cases "videoLinkUrls w p")
  case None
  then show ?thesis by (simp add: extractVideoLinks_def)
next
  case (Some urls)
  with links videoLinkUrls_pageLinks have sub: "set urls \<subseteq> U" by blast
  have "\<exists>st'. visitVideos fuel w urls st = Some st'"
    using fin extractMp3FromVideoPage_returns [OF fin closed] sub c
    by (rule visitVideos_returns)
  with Some show ?thesis by (simp add: extractVideoLinks_def)
qed

lemma scrapeAll_returns:
  assumes fin: "finite U"
    and IH: "\<And>url depth st. url \<in> U \<Longrightarrow> card (U - visitedUrls st) < fuel \<Longrightarrow>
                \<exists>st'. scrapeRecursively fuel maxDepth lower w url depth st = Some st'"
  shows "set urls \<subseteq> U \<Longrightarrow> card (U - visitedUrls st) < fuel \<Longrightarrow>
         \<exists>st'. scrapeAll fuel maxDepth lower w urls depth st = Some st'"
proof (induction urls arbitrary: st)
  case Nil
  then show ?case by simp
next
  case (Cons url urls)
  from Cons.prems IH [of url st depth] obtain st1
    where 1: "scrapeRecursively fuel maxDepth lower w url depth st = Some st1" by auto
  from card_grows [OF fin scrapeRecursively_grows [OF 1] Cons.prems(2)]
  have "card (U - visitedUrls st1) < fuel" .
  with Cons.IH [of st1] Cons.prems(1)
  obtain st' where "scrapeAll fuel maxDepth lower w urls depth st1 = Some st'"
    by auto
  with 1 show ?case by simp
qed

lemma scrapeRecursively_returns:
  assumes fin: "finite U" and closed: "closedUnder w U"
  shows "url \<in> U \<Longrightarrow> card (U - visitedUrls st) < fuel \<Longrightarrow>
         \<exists>st'. scrapeRecursively fuel maxDepth lower w url depth st = Some st'"
proof (induction fuel arbitrary: url depth st)
  case 0
  then show ?case by simp
next
  case (Suc fuel)
  have sa: "\<exists>st'. scrapeAll fuel maxDepth lower w urls d st = Some st'"
    if "set urls \<subseteq> U" "card (U - visitedUrls st) < fuel" for urls d st
    using fin Suc.IH that by (rule scrapeAll_returns)
  show ?case
  proof (cases "url \<in> visitedUrls st \<or> depth > maxDepth")
    case True
    then show ?thesis by simp
  next
    case False
    let ?st1 = "visit url st"
    have c: "card (U - visitedUrls ?st1) < fuel"
      using fin Suc.prems(1) _ Suc.prems(2) by (rule card_after_visit) (use False in simp)
    show ?thesis
    proof (cases "goto w url")
      case None
      with False show ?thesis by (simp add: Let_def)
    next
      case (Some snapshots)
      have links: "pageLinks w (snapshots k) \<subseteq> U" for k
        using closed Suc.prems(1) Some unfolding closedUnder_def by blast
      define outcome where "outcome =
        (if checkForCaptcha lower (snapshots 0)
         then handleCaptcha lower (headless w) snapshots else Solved 0)"
      have step: "scrapeRecursively (Suc fuel) maxDepth lower w url depth st =
        (case outcome of
           Failed \<Rightarrow> Some ?st1
         | Unsolved \<Rightarrow> Some ?st1
         | Solved k \<Rightarrow>
             (case collectElements (snapshots k) viewAllButtons of
                None \<Rightarrow> Some ?st1
              | Some buttons \<Rightarrow>
                  if length buttons > 0 then
                    (case resolveHrefs w buttons of
                       None \<Rightarrow> Some ?st1
                     | Some viewAllUrls \<Rightarrow>
                         scrapeAll fuel maxDepth lower w viewAllUrls (depth + 1) ?st1)
                  else extractVideoLinks fuel w (snapshots k) ?st1))"
        using False Some by (simp add: Let_def outcome_def)
      show ?thesis
      proof (cases outcome)
        case (Solved k)
        show ?thesis
        proof (cases "collectElements (snapshots k) viewAllButtons")
          case None
          with step Solved show ?thesis by simp
        next
          case buttons: (Some buttons)
          show ?thesis
          proof (cases "length buttons > 0")
            case True
            show ?thesis
            proof (cases "resolveHrefs w buttons")
              case None
              with step Solved buttons True show ?thesis by simp
            next
              case (Some viewAllUrls)
              from viewAllUrls_pageLinks [OF buttons Some] links [of k]
              have "set viewAllUrls \<subseteq> U" by blast
              from sa [OF this c, of "depth + 1"] step Solved buttons True Some
              show ?thesis by simp
            qed
          next
            case False
            from extractVideoLinks_returns [OF fin closed links [of k] c]
              step Solved buttons False
            show ?thesis by simp
          qed
        qed
      next
        case Unsolved
        with step show ?thesis by simp
      next
        case Failed
        with step show ?thesis by simp
      qed
    qed
  qed
qed

lemma ledgerInv_new: "ledgerInv newScraper"
  by (simp add: ledgerInv_def newScraper_def)

text \<open>
  On a site whose pages link only into a finite set of URLs, cycles included,
  \<open>scrapeRecursively\<close> returns whatever \<open>maxDepth\<close> is (fuel above the number of URLs
  is enough), the targets of its navigations are pairwise distinct as strings and all
  recorded in the ledger. A call on a URL already in the ledger returns at once, unchanged.
\<close>

lemma scrapeRecursively_terminates:
  assumes "finite U" and "closedUnder w U" and "startUrl \<in> U" and "card U < fuel"
  shows "(\<exists>st'. scrapeRecursively fuel maxDepth toLowerCase w startUrl 0 newScraper = Some st' \<and>
               distinct (navigations st') \<and> set (navigations st') \<subseteq> visitedUrls st') \<and>
         (\<forall>f url depth st. url \<in> visitedUrls st \<longrightarrow>
            scrapeRecursively (Suc f) maxDepth toLowerCase w url depth st = Some st)"
proof -
  have "card (U - visitedUrls newScraper) < fuel"
    using assms(4) by (simp add: newScraper_def)
  from scrapeRecursively_returns [OF assms(1,2,3) this]
  obtain st' where r: "scrapeRecursively fuel maxDepth toLowerCase w startUrl 0 newScraper = Some st'"
    by blast
  from scrapeRecursively_grows [OF r] ledgerInv_new have "ledgerInv st'"
    by (simp add: grows_def)
  with r show ?thesis by (auto simp: ledgerInv_def)
qed

lemma loop_no_captcha: "checkForCaptcha toLowerCaseAscii loopPage = False"
proof -
  have q: "querySelector loopPage selector =
      (if selector = ''a.vs-video-row__header__more-link''
       then Found \<lparr> href = Some (js ''/multimedia/video_cdo/aid/1779405/jewish/Rambam.htm''),
                    titleAttr = None, innerText = Some (js ''View All''), offsetParent = True, box = Some (80, 20) \<rparr>
       else Null)" for selector
    by (simp add: querySelector_def loopPage_def)
  have a: "\<not> activeCaptchaElement loopPage activeCaptchaSelectors"
    by (simp add: activeCaptchaSelectors_def q)
  have t: "pageTitle loopPage = Some (js ''Bereishit'')"
    and u: "pageUrl loopPage = loopUrl"
    and b: "bodyInnerText loopPage = Some (js ''Rabbi Gordon teaches Bereishit'')"
    by (simp_all add: loopPage_def blankPage_def)
  have cp: "\<not> challengePage toLowerCaseAscii loopPage"
    unfolding challengePage_def t u captchaIndicators_def
    by (simp add: toLowerCaseAscii_def loopUrl_def js_def)
  have ct: "\<not> challengeText toLowerCaseAscii loopPage"
    unfolding challengeText_def b challengePhrases_def Let_def
    by (simp add: toLowerCaseAscii_def js_def)
  from a cp ct show ?thesis by (simp add: checkForCaptcha_def)
qed

lemma loop_resolve:
  "resolveUrl loopSite (js ''/multimedia/video_cdo/aid/1779405/jewish/Rambam.htm'') = Some loopUrl"
  by (simp add: loopSite_def BASE_URL_def loopUrl_def js_def)

lemma loop_buttons:
  "collectElements loopPage viewAllButtons =
     Some [\<lparr> href = Some (js ''/multimedia/video_cdo/aid/1779405/jewish/Rambam.htm''),
             titleAttr = None, innerText = Some (js ''View All''), offsetParent = True, box = Some (80, 20) \<rparr>]"
  by (simp add: viewAllButtons_def loopPage_def)

lemma loop_hrefs:
  "resolveHrefs loopSite
     [\<lparr> href = Some (js ''/multimedia/video_cdo/aid/1779405/jewish/Rambam.htm''),
        titleAttr = None, innerText = Some (js ''View All''), offsetParent = True, box = Some (80, 20) \<rparr>] =
   Some [loopUrl]"
proof -
  have "js ''/multimedia/video_cdo/aid/1779405/jewish/Rambam.htm'' \<noteq> []"
    by (simp add: js_def)
  then show ?thesis by (simp add: loop_resolve)
qed

lemma loop_goto: "goto loopSite loopUrl = Some (\<lambda>k. loopPage)"
  by (simp add: loopSite_def)

lemma loop_run:
  "scrapeRecursively 2 10 toLowerCaseAscii loopSite loopUrl 0 newScraper =
     Some \<lparr> visitedUrls = {loopUrl}, scrapedData = [], navigations = [loopUrl] \<rparr>"
  by (simp add: numeral_2_eq_2 newScraper_def visit_def Let_def loop_goto loop_no_captcha
      loop_buttons loop_hrefs del: resolveHrefs.simps)

lemma loop_closed: "closedUnder loopSite {loopUrl}"
proof -
  have "pageLinks loopSite loopPage \<subseteq> {loopUrl}"
  proof
    fix u assume "u \<in> pageLinks loopSite loopPage"
    then obtain selector els el h where
      "querySelectorAll loopPage selector = Some els" "el \<in> set els"
      "href el = Some h" "resolveUrl loopSite h = Some u"
      unfolding pageLinks_def by blast
    then have "h = js ''/multimedia/video_cdo/aid/1779405/jewish/Rambam.htm''"
      by (auto simp: loopPage_def split: if_splits)
    with \<open>resolveUrl loopSite h = Some u\<close> loop_resolve show "u \<in> {loopUrl}" by simp
  qed
  then show ?thesis
    by (auto simp: closedUnder_def loopSite_def)
qed

subsection \<open>Normal forms\<close>

lemma resolveHrefs_normal:
  assumes "normalizing w" and "resolveHrefs w els = Some urls"
  shows "set urls \<subseteq> Collect (normalUrl w)"
proof
  fix u assume "u \<in> set urls"
  from resolveHrefs_subset [OF assms(2) this] obtain h where "resolveUrl w h = Some u" by blast
  with assms(1) show "u \<in> Collect (normalUrl w)"
    unfolding normalizing_def normalUrl_def by blast
qed

lemma videoLinkUrls_normal:
  assumes "normalizing w" and "videoLinkUrls w p = Some urls"
  shows "set urls \<subseteq> Collect (normalUrl w)"
  using assms by (auto simp: videoLinkUrls_def split: option.splits dest: resolveHrefs_normal)

lemma visit_normal:
  "normalUrl w url \<Longrightarrow> set (navigations st) \<subseteq> Collect (normalUrl w) \<Longrightarrow>
   set (navigations (visit url st)) \<subseteq> Collect (normalUrl w)"
  by (simp add: visit_def)

lemma visitVideos_normal:
  assumes "\<And>url st st'. extractMp3FromVideoPage fuel w url st = Some st' \<Longrightarrow>
             normalUrl w url \<Longrightarrow> set (navigations st) \<subseteq> Collect (normalUrl w) \<Longrightarrow>
             set (navigations st') \<subseteq> Collect (normalUrl w)"
  shows "visitVideos fuel w urls st = Some st' \<Longrightarrow> set urls \<subseteq> Collect (normalUrl w) \<Longrightarrow>
         set (navigations st) \<subseteq> Collect (normalUrl w) \<Longrightarrow>
         set (navigations st') \<subseteq> Collect (normalUrl w)"
proof (induction urls arbitrary: st)
  case Nil
  then show ?case by simp
next
  case (Cons url urls)
  from Cons.prems(1) obtain st1 where 1: "extractMp3FromVideoPage fuel w url st = Some st1"
    and 2: "visitVideos fuel w urls st1 = Some st'"
    by (auto split: option.splits)
  from Cons.prems(2) have u: "normalUrl w url" and us: "set urls \<subseteq> Collect (normalUrl w)"
    by simp_all
  from assms [OF 1 u Cons.prems(3)] have "set (navigations st1) \<subseteq> Collect (normalUrl w)" .
  with Cons.IH [OF 2 us] show ?case .
qed

lemma extractMp3FromVideoPage_normal:
  assumes n: "normalizing w"
  shows "extractMp3FromVideoPage fuel w url st = Some st' \<Longrightarrow> normalUrl w url \<Longrightarrow>
         set (navigations st) \<subseteq> Collect (normalUrl w) \<Longrightarrow>
         set (navigations st') \<subseteq> Collect (normalUrl w)"
proof (induction fuel arbitrary: url st st')
  case 0
  then show ?case by simp
next
  case (Suc fuel)
  have vv: "set (navigations st') \<subseteq> Collect (normalUrl w)"
    if "visitVideos fuel w urls st = Some st'" "set urls \<subseteq> Collect (normalUrl w)"
      "set (navigations st) \<subseteq> Collect (normalUrl w)" for urls st st'
    using Suc.IH that by (rule visitVideos_normal)
  show ?case
  proof (cases "url \<in> visitedUrls st")
    case True
    with Suc.prems show ?thesis by simp
  next
    case False
    let ?st1 = "visit url st"
    have v: "set (navigations ?st1) \<subseteq> Collect (normalUrl w)"
      using Suc.prems(2,3) by (rule visit_normal)
    show ?thesis
    proof (cases "goto w url")
      case None
      with False Suc.prems(1) v show ?thesis by (simp add: Let_def)
    next
      case (Some snapshots)
      show ?thesis
      proof (cases "findDownloadLink w (snapshots 0) downloadLinks")
        case (Some downloadLink)
        with False \<open>goto w url = Some snapshots\<close> Suc.prems(1) v show ?thesis
          by (auto simp: Let_def)
      next
        case None
        show ?thesis
        proof (cases "videoLinkUrls w (snapshots 0)")
          case no: None
          with False \<open>goto w url = Some snapshots\<close> None Suc.prems(1) v show ?thesis
            by (simp add: Let_def)
        next
          case (Some urls)
          let ?nested = "filter (\<lambda>fullUrl. fullUrl \<noteq> url \<and> fullUrl \<notin> visitedUrls ?st1) urls"
          from videoLinkUrls_normal [OF n Some]
          have s: "set ?nested \<subseteq> Collect (normalUrl w)" by auto
          from False \<open>goto w url = Some snapshots\<close> None Some Suc.prems(1)
          have "visitVideos fuel w ?nested ?st1 = Some st'" by (simp add: Let_def)
          from vv [OF this s v] show ?thesis .
        qed
      qed
    qed
  qed
qed

lemma extractVideoLinks_normal:
  assumes "normalizing w" and "extractVideoLinks fuel w p st = Some st'"
    and "set (navigations st) \<subseteq> Collect (normalUrl w)"
  shows "set (navigations st') \<subseteq> Collect (normalUrl w)"
proof (cases "videoLinkUrls w p")
  case None
  with assms(2,3) show ?thesis by (simp add: extractVideoLinks_def)
next
  case (Some urls)
  with assms(2) have v: "visitVideos fuel w urls st = Some st'"
    by (simp add: extractVideoLinks_def)
  from extractMp3FromVideoPage_normal [OF assms(1)] v
    videoLinkUrls_normal [OF assms(1) Some] assms(3)
  show ?thesis by (rule visitVideos_normal)
qed

lemma scrapeAll_normal:
  assumes "\<And>url depth st st'.
             scrapeRecursively fuel maxDepth lower w url depth st = Some st' \<Longrightarrow>
             normalUrl w url \<Longrightarrow> set (navigations st) \<subseteq> Collect (normalUrl w) \<Longrightarrow>
             set (navigations st') \<subseteq> Collect (normalUrl w)"
  shows "scrapeAll fuel maxDepth lower w urls depth st = Some st' \<Longrightarrow>
         set urls \<subseteq> Collect (normalUrl w) \<Longrightarrow>
         set (navigations st) \<subseteq> Collect (normalUrl w) \<Longrightarrow>
         set (navigations st') \<subseteq> Collect (normalUrl w)"
proof (induction urls arbitrary: st)
  case Nil
  then show ?case by simp
next
  case (Cons url urls)
  from Cons.prems(1) obtain st1
    where 1: "scrapeRecursively fuel maxDepth lower w url depth st = Some st1"
      and 2: "scrapeAll fuel maxDepth lower w urls depth st1 = Some st'"
    by (auto split: option.splits)
  from Cons.prems(2) have u: "normalUrl w url" and us: "set urls \<subseteq> Collect (normalUrl w)"
    by simp_all
  from assms [OF 1 u Cons.prems(3)] have "set (navigations st1) \<subseteq> Collect (normalUrl w)" .
  with Cons.IH [OF 2 us] show ?case .
qed

lemma scrapeRecursively_normal:
  assumes n: "normalizing w"
  shows "scrapeRecursively fuel maxDepth lower w url depth st = Some st' \<Longrightarrow>
         normalUrl w url \<Longrightarrow> set (navigations st) \<subseteq> Collect (normalUrl w) \<Longrightarrow>
         set (navigations st') \<subseteq> Collect (normalUrl w)"
proof (induction fuel arbitrary: url depth st st')
  case 0
  then show ?case by simp
next
  case (Suc fuel)
  have sa: "set (navigations st') \<subseteq> Collect (normalUrl w)"
    if "scrapeAll fuel maxDepth lower w urls d st = Some st'"
      "set urls \<subseteq> Collect (normalUrl w)"
      "set (navigations st) \<subseteq> Collect (normalUrl w)" for urls d st st'
    using Suc.IH that by (rule scrapeAll_normal)
  show ?case
  proof (cases "url \<in> visitedUrls st \<or> depth > maxDepth")
    case True
    with Suc.prems show ?thesis by simp
  next
    case False
    let ?st1 = "visit url st"
    have v: "set (navigations ?st1) \<subseteq> Collect (normalUrl w)"
      using Suc.prems(2,3) by (rule visit_normal)
    show ?thesis
    proof (cases "goto w url")
      case None
      with False Suc.prems(1) v show ?thesis by (simp add: Let_def)
    next
      case (Some snapshots)
      define outcome where "outcome =
        (if checkForCaptcha lower (snapshots 0)
         then handleCaptcha lower (headless w) snapshots else Solved 0)"
      have step: "scrapeRecursively (Suc fuel) maxDepth lower w url depth st =
        (case outcome of
           Failed \<Rightarrow> Some ?st1
         | Unsolved \<Rightarrow> Some ?st1
         | Solved k \<Rightarrow>
             (case collectElements (snapshots k) viewAllButtons of
                None \<Rightarrow> Some ?st1
              | Some buttons \<Rightarrow>
                  if length buttons > 0 then
                    (case resolveHrefs w buttons of
                       None \<Rightarrow> Some ?st1
                     | Some viewAllUrls \<Rightarrow>
                         scrapeAll fuel maxDepth lower w viewAllUrls (depth + 1) ?st1)
                  else extractVideoLinks fuel w (snapshots k) ?st1))"
        using False Some by (simp add: Let_def outcome_def)
      show ?thesis
      proof (cases outcome)
        case (Solved k)
        show ?thesis
        proof (cases "collectElements (snapshots k) viewAllButtons")
          case None
          with step Solved Suc.prems(1) v show ?thesis by simp
        next
          case buttons: (Some buttons)
          show ?thesis
          proof (cases "length buttons > 0")
            case True
            show ?thesis
            proof (cases "resolveHrefs w buttons")
              case None
              with step Solved buttons True Suc.prems(1) v show ?thesis by simp
            next
              case (Some viewAllUrls)
              from step Solved buttons True Some Suc.prems(1)
              have "scrapeAll fuel maxDepth lower w viewAllUrls (depth + 1) ?st1 = Some st'"
                by simp
              from sa [OF this resolveHrefs_normal [OF n Some] v] show ?thesis .
            qed
          next
            case False
            from step Solved buttons False Suc.prems(1)
            have "extractVideoLinks fuel w (snapshots k) ?st1 = Some st'" by simp
            from extractVideoLinks_normal [OF n this v] show ?thesis .
          qed
        qed
      next
        case Unsolved
        with step Suc.prems(1) v show ?thesis by simp
      next
        case Failed
        with step Suc.prems(1) v show ?thesis by simp
      qed
    qed
  qed
qed

subsection \<open>The start URL\<close>

lemma home_urls:
  "homeUrl \<noteq> homeAsGiven"
  "BASE_URL @ js ''/'' = homeUrl"
  "js ''/'' \<noteq> []"
  "js ''/'' \<noteq> homeAsGiven"
  "\<not> startsWith (js ''/'') (js ''http'')"
  "startsWith homeUrl (js ''http'')"
  by (simp_all add: homeUrl_def homeAsGiven_def BASE_URL_def js_def)

lemma home_resolve:
  "resolveUrl homeSite homeAsGiven = Some homeUrl"
  "resolveUrl homeSite homeUrl = Some homeUrl"
  "resolveUrl homeSite (js ''/'') = Some homeUrl"
  by (simp_all add: homeSite_def home_urls)

lemma home_no_captcha: "checkForCaptcha toLowerCaseAscii homePage = False"
proof -
  have q: "querySelector homePage selector =
      (if selector = ''a.vs-video-row__header__more-link''
       then Found \<lparr> href = Some (js ''/''), titleAttr = None,
                    innerText = Some (js ''View All''), offsetParent = True,
                    box = Some (80, 20) \<rparr>
       else Null)" for selector
    by (simp add: querySelector_def homePage_def)
  have a: "\<not> activeCaptchaElement homePage activeCaptchaSelectors"
    by (simp add: activeCaptchaSelectors_def q)
  have t: "pageTitle homePage = Some (js ''Bereishit'')"
    and u: "pageUrl homePage = homeUrl"
    and b: "bodyInnerText homePage = Some (js ''Rabbi Gordon teaches Bereishit'')"
    by (simp_all add: homePage_def blankPage_def)
  have cp: "\<not> challengePage toLowerCaseAscii homePage"
    unfolding challengePage_def t u captchaIndicators_def
    by (simp add: toLowerCaseAscii_def homeUrl_def js_def)
  have ct: "\<not> challengeText toLowerCaseAscii homePage"
    unfolding challengeText_def b challengePhrases_def Let_def
    by (simp add: toLowerCaseAscii_def js_def)
  from a cp ct show ?thesis by (simp add: checkForCaptcha_def)
qed

lemma home_buttons:
  "collectElements homePage viewAllButtons =
     Some [\<lparr> href = Some (js ''/''), titleAttr = None,
             innerText = Some (js ''View All''), offsetParent = True,
             box = Some (80, 20) \<rparr>]"
  by (simp add: viewAllButtons_def homePage_def)

lemma home_hrefs:
  "resolveHrefs homeSite
     [\<lparr> href = Some (js ''/''), titleAttr = None,
        innerText = Some (js ''View All''), offsetParent = True,
        box = Some (80, 20) \<rparr>] = Some [homeUrl]"
  by (simp add: home_resolve home_urls)

lemma home_goto:
  "goto homeSite homeAsGiven = Some (\<lambda>k. homePage)"
  "goto homeSite homeUrl = Some (\<lambda>k. homePage)"
  by (simp_all add: homeSite_def)

lemma home_run:
  "run 3 10 toLowerCaseAscii homeSite homeAsGiven =
     Some \<lparr> visitedUrls = {homeAsGiven, homeUrl}, scrapedData = [],
            navigations = [homeAsGiven, homeUrl] \<rparr>"
  by (simp add: run_def numeral_3_eq_3 newScraper_def visit_def Let_def home_goto
      home_no_captcha home_buttons home_hrefs home_urls insert_commute
      del: resolveHrefs.simps)

text \<open>
  C2. The ledger holds URLs as strings. Every link is normalized by \<open>new URL\<close> before
  it is looked up in the ledger, but \<open>run\<close> hands the start URL over as it was given.
  Started at \<open>https://www.chabad.org\<close>, on a home page whose "view all" link leads to
  \<open>/\<close>, the traversal returns after navigating to the home page twice: once under the
  string given and once under \<open>https://www.chabad.org/\<close>, the normal form of both.
\<close>

theorem run_revisits_start_page:
  "resolveUrl homeSite homeAsGiven = Some homeUrl \<and>
   resolveUrl homeSite homeUrl = Some homeUrl \<and>
   goto homeSite homeAsGiven = goto homeSite homeUrl \<and>
   run 3 10 toLowerCaseAscii homeSite homeAsGiven =
     Some \<lparr> visitedUrls = {homeAsGiven, homeUrl}, scrapedData = [],
            navigations = [homeAsGiven, homeUrl] \<rparr> \<and>
   map (resolveUrl homeSite) [homeAsGiven, homeUrl] = [Some homeUrl, Some homeUrl] \<and>
   \<not> distinct (map (resolveUrl homeSite) [homeAsGiven, homeUrl])"
  by (simp add: home_resolve home_goto home_run)

subsection \<open>The pagination strategy\<close>

lemma addLinks_distinct:
  "distinct (fst acc) \<Longrightarrow> set (fst acc) = snd acc \<Longrightarrow>
   distinct (fst (addLinks els acc)) \<and> set (fst (addLinks els acc)) = snd (addLinks els acc)"
proof (induction els arbitrary: acc)
  case Nil
  then show ?case by (cases acc) simp
next
  case (Cons el els)
  obtain links processedUrls where acc: "acc = (links, processedUrls)" by (cases acc)
  with Cons.prems have d: "distinct links" and s: "set links = processedUrls" by simp_all
  show ?case
  proof (cases "href el")
    case None
    with Cons.IH [of acc] Cons.prems acc show ?thesis by simp
  next
    case (Some h)
    let ?fullUrl = "if startsWith h (js ''http'') then h else BASE_URL @ h"
    show ?thesis
    proof (cases "h \<noteq> [] \<and> str_includes h (js ''/aid/'') \<and> ?fullUrl \<notin> processedUrls")
      case True
      with d s have "distinct (fst (links @ [?fullUrl], insert ?fullUrl processedUrls))"
        and "set (fst (links @ [?fullUrl], insert ?fullUrl processedUrls)) =
             snd (links @ [?fullUrl], insert ?fullUrl processedUrls)"
        by auto
      from Cons.IH [OF this] True Some acc show ?thesis by (simp add: Let_def)
    next
      case False
      with Cons.IH [of acc] Cons.prems acc Some show ?thesis by (auto simp: Let_def)
    qed
  qed
qed

lemma scanSelectors_distinct:
  "scanSelectors p selectors acc = Some acc' \<Longrightarrow>
   distinct (fst acc) \<Longrightarrow> set (fst acc) = snd acc \<Longrightarrow> distinct (fst acc')"
proof (induction selectors arbitrary: acc)
  case Nil
  then show ?case by simp
next
  case (Cons selector rest)
  from Cons.prems(1) obtain elements where q: "querySelectorAll p selector = Some elements"
    and r: "scanSelectors p rest (addLinks elements acc) = Some acc'"
    by (auto split: option.splits)
  from addLinks_distinct [OF Cons.prems(2,3), of elements] Cons.IH [OF r]
  show ?case by simp
qed

lemma scrapeCurrentPage_distinct: "distinct (fst (scrapeCurrentPage p st))"
proof (cases "scanSelectors p videoLinks ([], {})")
  case None
  then show ?thesis by (simp add: scrapeCurrentPage_def)
next
  case (Some acc')
  from scanSelectors_distinct [OF Some] have "distinct (fst acc')" by simp
  with Some show ?thesis by (cases acc') (simp add: scrapeCurrentPage_def)
qed

lemma extractFrom_pageVisits:
  "pageVisits (extractFrom w urls i st) = pageVisits st @ urls"
  by (induction urls arbitrary: i st) (simp_all split: option.splits)

lemma scrapeCurrentPage_links: "fst (scrapeCurrentPage p st) = pageVideoLinks p"
  by (simp add: pageVideoLinks_def scrapeCurrentPage_def split: option.splits prod.splits)

lemma scrapeCurrentPage_state:
  "allVideoData (snd (scrapeCurrentPage p st)) = allVideoData st @ pageVideoLinks p"
  "processedPages (snd (scrapeCurrentPage p st)) \<le> Suc (processedPages st)"
  "pageVisits (snd (scrapeCurrentPage p st)) = pageVisits st"
  by (simp_all add: pageVideoLinks_def scrapeCurrentPage_def split: option.splits prod.splits)

lemma pageVideoLinks_distinct: "distinct (pageVideoLinks p)"
  unfolding pageVideoLinks_def by (rule scrapeCurrentPage_distinct)

lemma collectLoop_run:
  assumes nxt: "\<And>j. j < n \<Longrightarrow> hasEnabledNextButton (listings w j) \<and> clickNextButton (listings w j)"
    and last: "\<not> (hasEnabledNextButton (listings w n) \<and> clickNextButton (listings w n))"
    and n: "n < 50"
  shows "k \<le> n \<Longrightarrow> processedPages st \<le> k \<Longrightarrow>
         \<exists>st'. collectLoop w k st = Some st' \<and>
               allVideoData st' =
                 allVideoData st @ concat (map (\<lambda>j. pageVideoLinks (dom (listings w j))) [k..<Suc n]) \<and>
               pageVisits st' = pageVisits st"
proof (induction "n - k" arbitrary: k st)
  case 0
  then have k: "k = n" by simp
  from 0 n have p: "processedPages st < 50" by simp
  from last p show ?case
    unfolding k by (subst collectLoop.simps) (auto simp: scrapeCurrentPage_state)
next
  case (Suc d)
  then have kn: "k < n" by simp
  from Suc.prems n have p: "processedPages st < 50" by simp
  let ?st1 = "snd (scrapeCurrentPage (dom (listings w k)) st)"
  have "processedPages ?st1 \<le> Suc (processedPages st)" by (rule scrapeCurrentPage_state)
  with Suc.prems(2) have p1: "processedPages ?st1 \<le> Suc k" by simp
  from Suc.hyps(2) have d: "d = n - Suc k" by simp
  from kn have k1: "Suc k \<le> n" by simp
  from Suc.hyps(1) [OF d k1 p1] obtain st'
    where r: "collectLoop w (Suc k) ?st1 = Some st'"
      and a: "allVideoData st' =
                allVideoData ?st1 @ concat (map (\<lambda>j. pageVideoLinks (dom (listings w j))) [Suc k..<Suc n])"
      and v: "pageVisits st' = pageVisits ?st1" by blast
  have u: "[k..<Suc n] = k # [Suc k..<Suc n]"
    using kn by (simp add: upt_conv_Cons)
  have "collectLoop w k st = collectLoop w (Suc k) ?st1"
    using nxt [OF kn] p by (subst collectLoop.simps) simp
  with r a v show ?case
    unfolding u by (simp add: scrapeCurrentPage_state)
qed

lemma count_list_distinct: "distinct xs \<Longrightarrow> count_list xs u = (if u \<in> set xs then 1 else 0)"
  by (induction xs) auto

lemma count_list_concat_distinct:
  "(\<And>k. distinct (f k)) \<Longrightarrow>
   count_list (concat (map f ks)) u = length (filter (\<lambda>k. u \<in> set (f k)) ks)"
  by (induction ks) (simp_all add: count_list_distinct)

lemma processAllPages_run:
  assumes s: "navigateToStart w = None"
    and nxt: "\<And>j. j < n \<Longrightarrow> hasEnabledNextButton (listings w j) \<and> clickNextButton (listings w j)"
    and last: "\<not> (hasEnabledNextButton (listings w n) \<and> clickNextButton (listings w n))"
    and n: "n < 50"
  shows "\<exists>st. processAllPages w newPaginated = Some (Inr st) \<and>
              pageVisits st = concat (map (\<lambda>k. pageVideoLinks (dom (listings w k))) [0..<Suc n]) \<and>
              (\<forall>u. count_list (pageVisits st) u =
                     length (filter (\<lambda>k. u \<in> set (pageVideoLinks (dom (listings w k)))) [0..<Suc n]))"
proof -
  have "0 \<le> n" "processedPages newPaginated \<le> 0" by (simp_all add: newPaginated_def)
  from collectLoop_run [of n w 0 newPaginated, OF nxt last n this] obtain st1
    where r: "collectLoop w 0 newPaginated = Some st1"
      and a: "allVideoData st1 = concat (map (\<lambda>j. pageVideoLinks (dom (listings w j))) [0..<Suc n])"
      and v: "pageVisits st1 = []"
    by (auto simp: newPaginated_def)
  let ?st = "extractMetadataFromAllVideos w st1"
  have p: "processAllPages w newPaginated = Some (Inr ?st)"
    by (simp add: processAllPages_def collectAllVideoUrls_def s r)
  have pv: "pageVisits ?st = concat (map (\<lambda>k. pageVideoLinks (dom (listings w k))) [0..<Suc n])"
    by (simp add: extractMetadataFromAllVideos_def extractFrom_pageVisits v a)
  have "count_list (pageVisits ?st) u =
          length (filter (\<lambda>k. u \<in> set (pageVideoLinks (dom (listings w k)))) [0..<Suc n])" for u
    unfolding pv by (rule count_list_concat_distinct) (rule pageVideoLinks_distinct)
  with p pv show ?thesis by blast
qed

text \<open>
  C3, as amended. The recursive strategy checks the ledger before every navigation: a run
  never navigates to the same string twice, and when it is started from a URL in normalized
  form it navigates to no ResourceRef twice; on a finite closed site it returns. The
  pagination strategy has no ledger. It drops duplicate video URLs within one listing page
  only. A run over the listing pages 0 to \<open>n\<close> (the next button works on every page
  but the last, and there are at most 50 pages) returns, and its metadata-extraction
  phase navigates to the links of page 0, then to those of page 1, and so on: a URL is
  visited once for each listing page it was found on.
\<close>

theorem ledger_only_in_recursive_strategy:
  "(scrapeRecursively fuel maxDepth toLowerCase w url depth newScraper = Some st' \<longrightarrow>
      distinct (navigations st') \<and> set (navigations st') \<subseteq> visitedUrls st' \<and>
      (normalizing w \<and> normalUrl w url \<longrightarrow> distinct (map (resolveUrl w) (navigations st')))) \<and>
   (finite U \<and> closedUnder w U \<and> url \<in> U \<and> card U < fuel \<longrightarrow>
      (\<exists>st. scrapeRecursively fuel maxDepth toLowerCase w url depth newScraper = Some st)) \<and>
   distinct (fst (scrapeCurrentPage p ps)) \<and>
   pageVisits (extractMetadataFromAllVideos pw ps) = pageVisits ps @ allVideoData ps \<and>
   (navigateToStart pw = None \<and> n < 50 \<and>
    (\<forall>k < n. hasEnabledNextButton (listings pw k) \<and> clickNextButton (listings pw k)) \<and>
    \<not> (hasEnabledNextButton (listings pw n) \<and> clickNextButton (listings pw n)) \<longrightarrow>
      (\<exists>st. processAllPages pw newPaginated = Some (Inr st) \<and>
            pageVisits st =
              concat (map (\<lambda>k. pageVideoLinks (dom (listings pw k))) [0..<Suc n]) \<and>
            (\<forall>u. count_list (pageVisits st) u =
                   length (filter (\<lambda>k. u \<in> set (pageVideoLinks (dom (listings pw k)))) [0..<Suc n]))))"
proof -
  have 1: "distinct (navigations st') \<and> set (navigations st') \<subseteq> visitedUrls st'"
    if "scrapeRecursively fuel maxDepth toLowerCase w url depth newScraper = Some st'"
    using scrapeRecursively_grows [OF that] ledgerInv_new
    by (simp add: grows_def ledgerInv_def)
  have 2: "distinct (map (resolveUrl w) (navigations st'))"
    if r: "scrapeRecursively fuel maxDepth toLowerCase w url depth newScraper = Some st'"
      and n: "normalizing w" and s: "normalUrl w url"
  proof -
    have "set (navigations newScraper) \<subseteq> Collect (normalUrl w)"
      by (simp add: newScraper_def)
    from scrapeRecursively_normal [OF n r s this]
    have m: "map (resolveUrl w) (navigations st') = map Some (navigations st')"
      by (auto simp: normalUrl_def)
    from 1 [OF r] show ?thesis
      unfolding m by (simp add: distinct_map)
  qed
  have 3: "\<exists>st. scrapeRecursively fuel maxDepth toLowerCase w url depth newScraper = Some st"
    if "finite U" "closedUnder w U" "url \<in> U" "card U < fuel"
  proof -
    from that(4) have "card (U - visitedUrls newScraper) < fuel"
      by (simp add: newScraper_def)
    with that(1,2,3) show ?thesis by (rule scrapeRecursively_returns)
  qed
  have 4: "\<exists>st. processAllPages pw newPaginated = Some (Inr st) \<and>
            pageVisits st =
              concat (map (\<lambda>k. pageVideoLinks (dom (listings pw k))) [0..<Suc n]) \<and>
            (\<forall>u. count_list (pageVisits st) u =
                   length (filter (\<lambda>k. u \<in> set (pageVideoLinks (dom (listings pw k)))) [0..<Suc n]))"
    if "navigateToStart pw = None" "n < 50"
      "\<forall>k < n. hasEnabledNextButton (listings pw k) \<and> clickNextButton (listings pw k)"
      "\<not> (hasEnabledNextButton (listings pw n) \<and> clickNextButton (listings pw n))"
    using processAllPages_run [of pw n] that by blast
  have 5: "distinct (fst (scrapeCurrentPage p ps))"
    by (rule scrapeCurrentPage_distinct)
  have 6: "pageVisits (extractMetadataFromAllVideos pw ps) = pageVisits ps @ allVideoData ps"
    by (simp add: extractMetadataFromAllVideos_def extractFrom_pageVisits)
  from 1 2 3 4 5 6 show ?thesis by blast
qed

lemma chapter_href:
  "js ''/library/tanya/tanya_cdo/aid/1028862/jewish/Chapter-1.htm'' \<noteq> []"
  "str_includes (js ''/library/tanya/tanya_cdo/aid/1028862/jewish/Chapter-1.htm'') (js ''/aid/'')"
  "\<not> startsWith (js ''/library/tanya/tanya_cdo/aid/1028862/jewish/Chapter-1.htm'') (js ''http'')"
  "BASE_URL @ js ''/library/tanya/tanya_cdo/aid/1028862/jewish/Chapter-1.htm'' = chapterUrl"
  by (simp_all add: js_def BASE_URL_def chapterUrl_def)

lemma chapter_links:
  "scrapeCurrentPage chapterListing st =
     ([chapterUrl],
      st \<lparr> allVideoData := allVideoData st @ [chapterUrl],
           totalFound := totalFound st + 1,
           processedPages := processedPages st + 1 \<rparr>)"
  by (simp add: scrapeCurrentPage_def videoLinks_def chapterListing_def chapter_href Let_def)

lemma two_listings_collect:
  "collectLoop twoListings 0 newPaginated =
     Some \<lparr> allVideoData = [chapterUrl, chapterUrl], processedPages = 2, totalFound = 2,
            extractedData = [], pageVisits = [] \<rparr>"
proof -
  have l: "dom (listings twoListings k) = chapterListing"
    "hasEnabledNextButton (listings twoListings k) = (k = 0)"
    "clickNextButton (listings twoListings k) = (k = 0)" for k
    by (simp_all add: twoListings_def)
  show ?thesis
    apply (subst collectLoop.simps)
    apply (simp add: l chapter_links newPaginated_def)
    apply (subst collectLoop.simps)
    apply (simp add: l chapter_links)
    done
qed

lemma blank_no_download: "paginated_findDownloadLink blankPage downloadLinks = None"
  by (simp add: downloadLinks_def querySelector_def blankPage_def)

text \<open>
  The claim as stated fails for the pagination strategy: the same video link on two
  listing pages is collected twice and visited twice.
\<close>

theorem pagination_revisits_counterexample:
  "fst (scrapeCurrentPage (dom (listings twoListings 0)) newPaginated) = [chapterUrl] \<and>
   fst (scrapeCurrentPage (dom (listings twoListings 1)) newPaginated) = [chapterUrl] \<and>
   processAllPages twoListings newPaginated =
     Some (Inr \<lparr> allVideoData = [chapterUrl, chapterUrl], processedPages = 2, totalFound = 2,
                 extractedData = [], pageVisits = [chapterUrl, chapterUrl] \<rparr>) \<and>
   \<not> distinct [chapterUrl, chapterUrl]"
proof -
  have n: "navigateToStart twoListings = None"
    by (simp add: twoListings_def)
  have v: "paginated_extractMp3FromVideoPage twoListings i url = None" for i url
    by (simp add: paginated_extractMp3FromVideoPage_def twoListings_def blank_no_download)
  have "processAllPages twoListings newPaginated =
     Some (Inr \<lparr> allVideoData = [chapterUrl, chapterUrl], processedPages = 2, totalFound = 2,
                 extractedData = [], pageVisits = [chapterUrl, chapterUrl] \<rparr>)"
    unfolding processAllPages_def collectAllVideoUrls_def two_listings_collect
    by (simp add: n extractMetadataFromAllVideos_def v)
  then show ?thesis
    by (simp add: twoListings_def chapter_links)
qed

lemma BASE_URL_http: "startsWith (BASE_URL @ h) (js ''http'')"
  by (simp add: BASE_URL_def js_def)

lemma loop_normalizing: "normalizing loopSite"
  by (auto simp: normalizing_def loopSite_def BASE_URL_http split: if_splits)

lemma loop_normal: "normalUrl loopSite loopUrl"
  by (simp add: normalUrl_def loopSite_def loopUrl_def js_def)

lemma two_listings_buttons:
  "navigateToStart twoListings = None"
  "hasEnabledNextButton (listings twoListings 0)"
  "clickNextButton (listings twoListings 0)"
  "\<not> hasEnabledNextButton (listings twoListings 1)"
  "dom (listings twoListings k) = chapterListing"
  by (simp_all add: twoListings_def)

lemma chapter_pageVideoLinks: "pageVideoLinks chapterListing = [chapterUrl]"
  by (simp add: pageVideoLinks_def chapter_links)

theorem ledger_only_in_recursive_strategy_witness:
  "normalizing loopSite \<and> normalUrl loopSite loopUrl \<and>
   finite {loopUrl} \<and> closedUnder loopSite {loopUrl} \<and> card {loopUrl} < 2 \<and>
   scrapeRecursively 2 10 toLowerCaseAscii loopSite loopUrl 0 newScraper =
     Some \<lparr> visitedUrls = {loopUrl}, scrapedData = [], navigations = [loopUrl] \<rparr> \<and>
   distinct (map (resolveUrl loopSite)
     (navigations \<lparr> visitedUrls = {loopUrl}, scrapedData = [], navigations = [loopUrl] \<rparr>)) \<and>
   navigateToStart twoListings = None \<and>
   hasEnabledNextButton (listings twoListings 0) \<and> clickNextButton (listings twoListings 0) \<and>
   \<not> hasEnabledNextButton (listings twoListings 1) \<and>
   (\<exists>st. processAllPages twoListings newPaginated = Some (Inr st) \<and>
         pageVisits st = [chapterUrl, chapterUrl] \<and>
         count_list (pageVisits st) chapterUrl = 2)"
proof -
  have f: "finite {loopUrl}" and c: "card {loopUrl} < 2"
    by simp_all
  have n: "(1::nat) < 50" and a: "\<forall>k < (1::nat). hasEnabledNextButton (listings twoListings k) \<and>
      clickNextButton (listings twoListings k)"
    by (simp_all add: two_listings_buttons)
  have u: "[0..<Suc 1] = [0, 1]"
    by (simp add: upt_conv_Cons)
  from ledger_only_in_recursive_strategy
          [of 2 10 toLowerCaseAscii loopSite loopUrl 0
              "\<lparr> visitedUrls = {loopUrl}, scrapedData = [], navigations = [loopUrl] \<rparr>"
              "{loopUrl}" chapterListing newPaginated twoListings 1]
       loop_run loop_normalizing loop_normal n a two_listings_buttons(1,4)
  obtain st where d: "distinct (map (resolveUrl loopSite)
       (navigations \<lparr> visitedUrls = {loopUrl}, scrapedData = [], navigations = [loopUrl] \<rparr>))"
    and p: "processAllPages twoListings newPaginated = Some (Inr st)"
    and v: "pageVisits st =
       concat (map (\<lambda>k. pageVideoLinks (dom (listings twoListings k))) [0..<Suc 1])"
    and k: "count_list (pageVisits st) chapterUrl =
       length (filter (\<lambda>k. chapterUrl \<in> set (pageVideoLinks (dom (listings twoListings k)))) [0..<Suc 1])"
    by blast
  from v have v': "pageVisits st = [chapterUrl, chapterUrl]"
    unfolding u by (simp add: two_listings_buttons chapter_pageVideoLinks)
  from k have k': "count_list (pageVisits st) chapterUrl = 2"
    unfolding u by (simp add: two_listings_buttons chapter_pageVideoLinks)
  from d p v' k' loop_run loop_normalizing loop_normal f c loop_closed two_listings_buttons(1-4)
  show ?thesis by blast
qed

subsection \<open>Metadata extraction\<close>

lemma firstNonEmptyText_nonempty:
  "firstNonEmptyText p selectors = Some t \<Longrightarrow> t \<noteq> []"
  by (induction selectors) (auto split: driver.splits option.splits if_splits)

text \<open>
  C8 fails for the author (and the podcast) of \<open>mp3_scraper.js\<close>: on a page whose first
  author selector matches a link with a blank text, the search stops there and the author
  is the empty string, while the paginated scraper goes on to the next selector and finds
  the name.
\<close>

theorem extractMetadata_author_blank_match:
  "author (extractMetadata bylinePage) = Some [] \<and>
   author (paginated_extractMetadata bylinePage) = Some (js ''Yehoshua B. Gordon'')"
proof -
  have q1: "querySelector bylinePage ''span.article-header__byline a'' = Found (link (js '' ''))"
    by (simp add: querySelector_def bylinePage_def)
  have q2: "querySelector bylinePage ''.article-header__byline a'' =
            Found (link (js ''Yehoshua B. Gordon''))"
    by (simp add: querySelector_def bylinePage_def)
  have t1: "trim (js '' '') = []"
    by (simp add: trim_def isWhiteSpace_def js_def)
  have t2: "trim (js ''Yehoshua B. Gordon'') = js ''Yehoshua B. Gordon''"
    by (simp add: trim_def isWhiteSpace_def js_def)
  have n2: "js ''Yehoshua B. Gordon'' \<noteq> []" and n1: "js '' '' \<noteq> []"
    by (simp_all add: js_def)
  have a: "author (extractMetadata bylinePage) = Some []"
    by (simp add: extractMetadata_def authorSelectors_def q1 link_def t1)
  have b: "author (paginated_extractMetadata bylinePage) = Some (js ''Yehoshua B. Gordon'')"
    by (simp add: paginated_extractMetadata_def authorSelectors_def q1 q2 link_def t1 t2 n1 n2)
  from a b show ?thesis by simp
qed

subsection \<open>Login status\<close>

text \<open>
  C9. \<open>checkLoginStatus\<close> returns true whatever the page shows, and without navigating
  anywhere: the constant \<open>basicCheck = true\<close> returns before the protected resource is
  probed, so no branch that returns false can be reached.
\<close>

theorem checkLoginStatus_always_true: "checkLoginStatus toLowerCase p = (True, [])"
  by (simp add: checkLoginStatus_def)

subsection \<open>Header values\<close>

text \<open>
  C5. For every argument, the value \<open>sanitizeMetadataValue\<close> returns consists of
  printable ASCII code units only (\<open>0x20\<close> to \<open>0x7E\<close>) and is at most 1024 long.
\<close>

theorem sanitizeMetadataValue_safe:
  "(\<forall>c \<in> set (sanitizeMetadataValue v). isPrintableAscii c) \<and>
   length (sanitizeMetadataValue v) \<le> 1024"
proof (cases v)
  case None
  then show ?thesis by (simp add: sanitizeMetadataValue_def)
next
  case (Some s)
  let ?f = "filter (\<lambda>c. \<not> (c \<le> 0x1F \<or> c = 0x7F)) (filter (\<lambda>c. 0x20 \<le> c \<and> c \<le> 0x7E) s)"
  have "set (take 1024 (trim ?f)) \<subseteq> set (trim ?f)"
    by (rule set_take_subset)
  also have "\<dots> \<subseteq> set ?f"
    by (rule set_trim_subset)
  finally have sub: "set (take 1024 (trim ?f)) \<subseteq> set ?f" .
  have "\<forall>c \<in> set ?f. isPrintableAscii c"
    by (simp add: isPrintableAscii_def)
  with sub have "\<forall>c \<in> set (take 1024 (trim ?f)). isPrintableAscii c"
    by blast
  with Some show ?thesis
    by (simp add: sanitizeMetadataValue_def substring0_def)
qed

theorem sanitizeMetadataValue_safe_witness:
  "sanitizeMetadataValue (Some [0x20, 0x61, 0xE9, 0x07, 0x20, 0x62, 0x2028, 0x20]) = js ''a b'' \<and>
   isPrintableAscii 0x61 \<and>
   length (sanitizeMetadataValue (Some [0x20, 0x61, 0xE9, 0x07, 0x20, 0x62, 0x2028, 0x20])) \<le> 1024"
proof -
  let ?v = "Some [0x20, 0x61, 0xE9, 0x07, 0x20, 0x62, 0x2028, 0x20 :: jschar]"
  have v: "sanitizeMetadataValue ?v = js ''a b''"
    by (simp add: sanitizeMetadataValue_def substring0_def trim_def isWhiteSpace_def js_def)
  have m: "(0x61 :: jschar) \<in> set (sanitizeMetadataValue ?v)"
    unfolding v by (simp add: js_def)
  from sanitizeMetadataValue_safe [of ?v] m v show ?thesis
    by blast
qed

end
